theory Spec2Isabelle
  imports Main "HOL-Library.Word"
begin

unbundle bit_operations_syntax

section \<open>Machine model\<close>

text \<open>
  The allocators are C code for a 64-bit target. \<open>size_t\<close>, \<open>uintptr_t\<close> and the
  value of a data pointer are 64-bit words; arithmetic on them wraps around, pointer
  arithmetic on \<open>uint8_t *\<close> is arithmetic on the addresses of a flat address space
  (so \<open>head + size\<close> wraps around too), pointer comparison is unsigned comparison of
  the addresses, and the null pointer is the address 0. The size of a pointer is 8 bytes,
  so the header of an arena block (three pointers) is 24 bytes long.
\<close>

type_synonym addr = "64 word"
type_synonym size_t = "64 word"

abbreviation NULL :: addr where
  "NULL \<equiv> 0"

text \<open>
  \<^verbatim>\<open>#define ALIGN_TO(_value, _alignment) ((_value) + ((_alignment) - 1) & -(_alignment))\<close>
  In C the binary \<open>+\<close> binds tighter than \<open>&\<close>.
\<close>

definition ALIGN_TO :: "64 word \<Rightarrow> 64 word \<Rightarrow> 64 word" where
  "ALIGN_TO v a = (v + (a - 1)) AND (- a)"

text \<open>The alignments within the contract: the powers of two that a \<open>size_t\<close> holds.\<close>

definition is_pow2 :: "size_t \<Rightarrow> bool" where
  "is_pow2 a \<longleftrightarrow> (\<exists>k \<in> {0..<64}. a = 2 ^ k)"

text \<open>
  Addresses of the lower half of the address space, and sizes of at most
  \<open>PTRDIFF_MAX\<close>: on these the address computations of the allocators do not
  wrap around.
\<close>

definition lower_half :: "64 word \<Rightarrow> bool" where
  "lower_half w \<longleftrightarrow> unat w \<le> 2 ^ 63"

definition sane_size :: "size_t \<Rightarrow> bool" where
  "sane_size n \<longleftrightarrow> unat n < 2 ^ 63"

section \<open>Linear allocator (linear.c)\<close>

text \<open>
  The state is the global \<open>head\<close>, an index into the global array \<open>buffer\<close> of
  \<open>BUFFER_SIZE\<close> bytes. \<open>allocate\<close> returns \<open>&buffer[head]\<close> or the null pointer:
  \<open>Some i\<close> stands for \<open>&buffer[i]\<close>, \<open>None\<close> for \<open>NULL\<close>.
\<close>

definition BUFFER_SIZE :: size_t where
  "BUFFER_SIZE = 1024"

record linear =
  lin_head :: size_t

definition allocate :: "linear \<Rightarrow> size_t \<Rightarrow> size_t option \<times> linear" where
  "allocate g sz =
     (let mem = lin_head g;
          g' = g\<lparr>lin_head := lin_head g + sz\<rparr>
      in if lin_head g' > BUFFER_SIZE then (None, g') else (Some mem, g'))"

section \<open>Fixed buffer allocator (fba.h)\<close>

record fba =
  fba_buffer :: addr
  fba_buffer_end :: addr
  fba_head :: addr

definition fba_init :: "addr \<Rightarrow> size_t \<Rightarrow> fba" where
  "fba_init buffer buffer_size =
     \<lparr>fba_buffer = buffer, fba_buffer_end = buffer + buffer_size, fba_head = buffer\<rparr>"

definition fba_reset :: "fba \<Rightarrow> fba" where
  "fba_reset f = f\<lparr>fba_head := fba_buffer f\<rparr>"

definition fba_alloc_opt :: "fba \<Rightarrow> size_t \<Rightarrow> size_t \<Rightarrow> addr \<times> fba" where
  "fba_alloc_opt f sz align =
     (let head = ALIGN_TO (fba_head f) align
      in if head + sz > fba_buffer_end f then (NULL, f)
         else (head, f\<lparr>fba_head := head + sz\<rparr>))"

definition fba_alloc :: "fba \<Rightarrow> size_t \<Rightarrow> addr \<times> fba" where
  "fba_alloc f sz = fba_alloc_opt f sz 8"

text \<open>The invariant of the data model: a buffer that does not start at the null
  address and lies in the lower half of the address space, and a head inside it.\<close>

definition fba_wf :: "fba \<Rightarrow> bool" where
  "fba_wf f \<longleftrightarrow>
     fba_buffer f \<noteq> NULL \<and> fba_buffer f \<le> fba_head f \<and>
     fba_head f \<le> fba_buffer_end f \<and> lower_half (fba_buffer_end f)"

section \<open>Arena allocator (arena.h)\<close>

text \<open>
  The blocks live in a heap of \<open>arena_block_t\<close> headers, indexed by the address of
  the block. Reading a field through the null pointer, or through an address that holds
  no block, is a fault. The backing allocator is a script: the list of the addresses that
  the next calls of \<open>malloc\<close> return, \<open>NULL\<close> for a call that fails; when the list
  is used up \<open>malloc\<close> fails. The record \<open>arena\<close> holds the one field of
  \<open>arena_t\<close> together with the heap and the script.
\<close>

datatype fault = NullDeref | WildDeref

record arena_block =
  blk_next :: addr
  blk_buffer_end :: addr
  blk_head :: addr

record arena =
  arena_blocks :: addr
  arena_heap :: "addr \<rightharpoonup> arena_block"
  arena_backing :: "addr list"

definition ARENA_BLOCK_SIZE :: size_t where
  "ARENA_BLOCK_SIZE = 1024"

text \<open>The offset of the flexible array member \<open>buffer\<close> in \<open>arena_block_t\<close>.\<close>

definition ARENA_HEADER_SIZE :: size_t where
  "ARENA_HEADER_SIZE = 24"

definition malloc :: "arena \<Rightarrow> size_t \<Rightarrow> addr \<times> arena" where
  "malloc s n =
     (case arena_backing s of
        [] \<Rightarrow> (NULL, s)
      | p # ps \<Rightarrow> (p, s\<lparr>arena_backing := ps\<rparr>))"

definition arena_block_init :: "arena \<Rightarrow> addr \<Rightarrow> addr \<Rightarrow> arena" where
  "arena_block_init s b nxt =
     s\<lparr>arena_heap := (arena_heap s)(b \<mapsto>
         \<lparr>blk_next = nxt, blk_buffer_end = b + ARENA_BLOCK_SIZE,
          blk_head = b + ARENA_HEADER_SIZE\<rparr>)\<rparr>"

definition arena_block_alloc ::
  "arena \<Rightarrow> addr \<Rightarrow> size_t \<Rightarrow> size_t \<Rightarrow> fault + (addr \<times> arena)" where
  "arena_block_alloc s b sz align =
     (if b = NULL then Inl NullDeref
      else case arena_heap s b of
        None \<Rightarrow> Inl WildDeref
      | Some blk \<Rightarrow>
          (let head = ALIGN_TO (blk_head blk) align
           in if head + sz > blk_buffer_end blk then Inr (NULL, s)
              else Inr (head, s\<lparr>arena_heap := (arena_heap s)(b \<mapsto> blk\<lparr>blk_head := head + sz\<rparr>)\<rparr>)))"

definition arena_new_block :: "arena \<Rightarrow> addr \<times> arena" where
  "arena_new_block s =
     (case malloc s ARENA_BLOCK_SIZE of (blk, s1) \<Rightarrow>
        if blk = NULL then (NULL, s1)
        else (blk, (arena_block_init s1 blk (arena_blocks s1))\<lparr>arena_blocks := blk\<rparr>))"

definition arena_get_block :: "arena \<Rightarrow> addr \<times> arena" where
  "arena_get_block s =
     (if arena_blocks s \<noteq> NULL then (arena_blocks s, s) else arena_new_block s)"

definition arena_alloc :: "arena \<Rightarrow> size_t \<Rightarrow> size_t \<Rightarrow> fault + (addr \<times> arena)" where
  "arena_alloc s sz align =
     (case arena_get_block s of (blk, s1) \<Rightarrow>
        if blk = NULL then Inr (NULL, s1)
        else case arena_block_alloc s1 blk sz align of
          Inl e \<Rightarrow> Inl e
        | Inr (buf, s2) \<Rightarrow>
            if buf \<noteq> NULL then Inr (buf, s2)
            else (case arena_new_block s2 of (blk', s3) \<Rightarrow>
                    arena_block_alloc s3 blk' sz align))"

text \<open>
  \<open>arena_clear\<close> walks the list and frees every block. The walk need not end (the
  list may be cyclic): not returning is \<open>None\<close>. Reading the link of a block that the
  heap does not hold is a fault.
\<close>

definition free :: "arena \<Rightarrow> addr \<Rightarrow> arena" where
  "free s b = s\<lparr>arena_heap := (arena_heap s)(b := None)\<rparr>"

partial_function (option) arena_clear_loop :: "arena \<Rightarrow> addr \<Rightarrow> (fault + arena) option" where
  "arena_clear_loop s b =
     (if b = NULL then Some (Inr s)
      else case arena_heap s b of
        None \<Rightarrow> Some (Inl WildDeref)
      | Some blk \<Rightarrow> arena_clear_loop (free s b) (blk_next blk))"

definition arena_clear :: "arena \<Rightarrow> (fault + arena) option" where
  "arena_clear s =
     (case arena_clear_loop s (arena_blocks s) of
        None \<Rightarrow> None
      | Some (Inl e) \<Rightarrow> Some (Inl e)
      | Some (Inr s1) \<Rightarrow> Some (Inr (s1\<lparr>arena_blocks := NULL\<rparr>)))"

text \<open>
  What \<open>malloc\<close> may return for a block: a non-null address whose
  \<open>ARENA_BLOCK_SIZE\<close> bytes lie in the lower half of the address space.
\<close>

definition block_addr_ok :: "addr \<Rightarrow> bool" where
  "block_addr_ok p \<longleftrightarrow> p \<noteq> NULL \<and> unat p + 1024 \<le> 2 ^ 63"

text \<open>The most recent block of an arena, if there is one, is a block as
  \<open>arena_block_init\<close> and \<open>arena_block_alloc\<close> leave it.\<close>

definition block_wf :: "addr \<Rightarrow> arena_block \<Rightarrow> bool" where
  "block_wf b blk \<longleftrightarrow>
     block_addr_ok b \<and> blk_buffer_end blk = b + ARENA_BLOCK_SIZE \<and>
     unat b + 24 \<le> unat (blk_head blk) \<and> unat (blk_head blk) \<le> unat b + 1024"

definition arena_wf :: "arena \<Rightarrow> bool" where
  "arena_wf s \<longleftrightarrow>
     (arena_blocks s = NULL \<or>
      (case arena_heap s (arena_blocks s) of
         None \<Rightarrow> False
       | Some blk \<Rightarrow> block_wf (arena_blocks s) blk))"

text \<open>
  The backing allocator serves an oversize request: on a non-empty arena the one block
  that the call asks for is delivered; on an empty arena either the first block is
  refused, or the first block and the block of the retry are both delivered.
\<close>

definition backing_serves :: "arena \<Rightarrow> bool" where
  "backing_serves s \<longleftrightarrow>
     (case arena_backing s of
        [] \<Rightarrow> arena_blocks s = NULL
      | p # ps \<Rightarrow>
          if arena_blocks s \<noteq> NULL then block_addr_ok p
          else p = NULL \<or> (block_addr_ok p \<and> (case ps of [] \<Rightarrow> False | q # _ \<Rightarrow> block_addr_ok q)))"

section \<open>Block allocator (block\_allocator.h)\<close>

text \<open>
  The free list is threaded through the bytes of the caller's buffer, so memory is a
  function from addresses to bytes. A pointer is stored in 8 bytes, least significant
  byte first.
\<close>

type_synonym mem = "addr \<Rightarrow> 8 word"

definition ptr_bytes :: "addr \<Rightarrow> 8 word list" where
  "ptr_bytes v = map (\<lambda>k. ucast (drop_bit (8 * k) v)) [0..<8]"

definition bytes_ptr :: "8 word list \<Rightarrow> addr" where
  "bytes_ptr bs = word_of_int (horner_sum uint (2 ^ 8) bs)"

definition store_ptr :: "mem \<Rightarrow> addr \<Rightarrow> addr \<Rightarrow> mem" where
  "store_ptr m a v = (\<lambda>x. if x - a < 8 then ptr_bytes v ! unat (x - a) else m x)"

definition load_ptr :: "mem \<Rightarrow> addr \<Rightarrow> addr" where
  "load_ptr m a = bytes_ptr (map (\<lambda>k. m (a + of_nat k)) [0..<8])"

definition memset :: "mem \<Rightarrow> addr \<Rightarrow> 8 word \<Rightarrow> size_t \<Rightarrow> mem" where
  "memset m p c n = (\<lambda>x. if x - p < n then c else m x)"

text \<open>Two pointer-sized fields that share no byte, also around the end of the
  address space.\<close>

definition apart :: "addr \<Rightarrow> addr \<Rightarrow> bool" where
  "apart a b \<longleftrightarrow> 8 \<le> b - a \<and> 8 \<le> a - b"

record block_allocator =
  ba_buffer :: addr
  ba_buffer_end :: addr
  ba_blocks :: addr
  ba_mem :: mem

text \<open>The loop of \<open>ba_init\<close>, from the index \<open>i\<close> on.\<close>

function ba_init_loop ::
  "addr \<Rightarrow> size_t \<Rightarrow> size_t \<Rightarrow> size_t \<Rightarrow> addr \<Rightarrow> mem \<Rightarrow> addr \<times> mem" where
  "ba_init_loop buffer item_size item_count i prev m =
     (if i < item_count
      then (let b = buffer + i * item_size
            in ba_init_loop buffer item_size item_count (i + 1) b (store_ptr m b prev))
      else (prev, m))"
  by pat_completeness auto
termination
proof (relation "measure (\<lambda>(buffer, item_size, item_count, i, prev, m). unat item_count - unat i)")
  show "wf (measure (\<lambda>(buffer, item_size, item_count, i, prev, m). unat item_count - unat i))"
    by simp
next
  fix buffer item_size item_count i :: "64 word" and prev :: addr and m :: mem and x :: addr
  assume lt: "i < item_count"
  then have "unat i < unat item_count"
    by (simp add: word_less_nat_alt)
  moreover have "unat item_count < 2 ^ 64"
    using unsigned_less [of item_count] by simp
  ultimately have "unat (i + 1) = unat i + 1"
    by (simp add: unat_word_ariths)
  with \<open>unat i < unat item_count\<close>
  show "((buffer, item_size, item_count, i + 1, x, store_ptr m x prev),
         (buffer, item_size, item_count, i, prev, m))
        \<in> measure (\<lambda>(buffer, item_size, item_count, i, prev, m). unat item_count - unat i)"
    by simp
qed

declare ba_init_loop.simps [simp del]

text \<open>\<open>ba_init\<close> asserts that an item can hold a link; a failed assertion aborts
  the program: \<open>None\<close>.\<close>

definition ba_init :: "mem \<Rightarrow> addr \<Rightarrow> size_t \<Rightarrow> size_t \<Rightarrow> block_allocator option" where
  "ba_init m buffer buffer_size item_size =
     (if \<not> item_size \<ge> 8 then None
      else (let item_count = buffer_size div item_size
            in case ba_init_loop buffer item_size item_count 0 NULL m of (prev, m') \<Rightarrow>
                 Some \<lparr>ba_buffer = buffer, ba_buffer_end = buffer + buffer_size,
                       ba_blocks = prev, ba_mem = m'\<rparr>))"

definition ba_alloc :: "block_allocator \<Rightarrow> addr \<times> block_allocator" where
  "ba_alloc ba =
     (if ba_blocks ba = NULL then (NULL, ba)
      else (let blk = ba_blocks ba;
                ba1 = ba\<lparr>ba_blocks := load_ptr (ba_mem ba) blk\<rparr>;
                ba2 = ba1\<lparr>ba_mem := memset (ba_mem ba1) blk 0 8\<rparr>
            in (blk, ba2)))"

definition ba_free :: "block_allocator \<Rightarrow> addr \<Rightarrow> block_allocator" where
  "ba_free ba p =
     (if p < ba_buffer ba \<or> p > ba_buffer_end ba then ba
      else ba\<lparr>ba_mem := store_ptr (ba_mem ba) p (ba_blocks ba), ba_blocks := p\<rparr>)"

section \<open>Sequences of calls and the shape of the free list\<close>

text \<open>The free list of the block allocator: from the pointer \<open>p\<close> the links in memory
  lead through the addresses \<open>xs\<close>, all of them non-null, to the null pointer.\<close>

fun chain :: "mem \<Rightarrow> addr \<Rightarrow> addr list \<Rightarrow> bool" where
  "chain m p [] \<longleftrightarrow> p = NULL"
| "chain m p (x # xs) \<longleftrightarrow> p = x \<and> x \<noteq> NULL \<and> chain m (load_ptr m x) xs"

text \<open>\<open>n\<close> calls of \<open>ba_alloc\<close> in a row, with no call of \<open>ba_free\<close> between
  them, and the pointers they return.\<close>

fun ba_allocs :: "nat \<Rightarrow> block_allocator \<Rightarrow> addr list \<times> block_allocator" where
  "ba_allocs 0 ba = ([], ba)"
| "ba_allocs (Suc n) ba =
     (case ba_alloc ba of (p, ba1) \<Rightarrow>
        case ba_allocs n ba1 of (ps, ba2) \<Rightarrow> (p # ps, ba2))"

text \<open>The address of the item \<open>i\<close>, as \<open>ba_init\<close> computes it.\<close>

definition item_addr :: "addr \<Rightarrow> size_t \<Rightarrow> nat \<Rightarrow> addr" where
  "item_addr buffer item_size i = buffer + of_nat i * item_size"

text \<open>The invariant of the block allocator: the free list is a chain of pointer-sized
  fields of the buffer that share no byte.\<close>

definition ba_inv :: "block_allocator \<Rightarrow> addr list \<Rightarrow> bool" where
  "ba_inv ba xs \<longleftrightarrow>
     ba_buffer ba \<noteq> NULL \<and>
     chain (ba_mem ba) (ba_blocks ba) xs \<and> sorted_wrt apart xs \<and>
     (\<forall>x \<in> set xs. ba_buffer ba \<le> x \<and> x \<le> ba_buffer_end ba)"

text \<open>
  An allocation \<open>(p, n)\<close>, the pointer and the size, precedes another one when its
  range \<open>[p, p + n)\<close> ends at or before the pointer of the other. Then the first pointer
  is not above the second, it is strictly below when \<open>n\<close> is not zero, and the two
  ranges share no byte.
\<close>

definition precedes :: "addr \<times> size_t \<Rightarrow> addr \<times> size_t \<Rightarrow> bool" where
  "precedes x y \<longleftrightarrow> unat (fst x) + unat (snd x) \<le> unat (fst y)"

text \<open>Sequences of calls with no reset or clear between them, and what they return.
  For the arena each result carries the block that served it: the first block of the list
  after the call.\<close>

fun fba_allocs :: "fba \<Rightarrow> (size_t \<times> size_t) list \<Rightarrow> (addr \<times> size_t) list \<times> fba" where
  "fba_allocs f [] = ([], f)"
| "fba_allocs f ((sz, align) # rs) =
     (case fba_alloc_opt f sz align of (p, f1) \<Rightarrow>
        case fba_allocs f1 rs of (ps, f2) \<Rightarrow> ((p, sz) # ps, f2))"

fun allocates :: "linear \<Rightarrow> size_t list \<Rightarrow> (size_t option \<times> size_t) list \<times> linear" where
  "allocates g [] = ([], g)"
| "allocates g (sz # ns) =
     (case allocate g sz of (q, g1) \<Rightarrow>
        case allocates g1 ns of (qs, g2) \<Rightarrow> ((q, sz) # qs, g2))"

fun arena_allocs ::
  "arena \<Rightarrow> (size_t \<times> size_t) list \<Rightarrow> fault + ((addr \<times> addr \<times> size_t) list \<times> arena)" where
  "arena_allocs s [] = Inr ([], s)"
| "arena_allocs s ((sz, align) # rs) =
     (case arena_alloc s sz align of
        Inl e \<Rightarrow> Inl e
      | Inr (p, s1) \<Rightarrow>
          (case arena_allocs s1 rs of
             Inl e \<Rightarrow> Inl e
           | Inr (res, s2) \<Rightarrow> Inr ((arena_blocks s1, p, sz) # res, s2)))"

text \<open>Two allocations of an arena \<open>(b, p, n)\<close>, with the block that served each:
  in the same block the first precedes the second; in different blocks the ranges share
  no byte.\<close>

definition arena_precedes :: "addr \<times> addr \<times> size_t \<Rightarrow> addr \<times> addr \<times> size_t \<Rightarrow> bool" where
  "arena_precedes x y \<longleftrightarrow>
     (case x of (b, p, n) \<Rightarrow> case y of (b', p', n') \<Rightarrow>
        if b = b' then unat p + unat n \<le> unat p'
        else unat p + unat n \<le> unat p' \<or> unat p' + unat n' \<le> unat p)"

text \<open>
  The environment of a sequence of calls on an arena: the blocks that \<open>malloc\<close> will
  deliver are blocks of \<open>ARENA_BLOCK_SIZE\<close> bytes that overlap neither each other nor
  the first block of the arena.
\<close>

definition block_apart :: "addr \<Rightarrow> addr \<Rightarrow> bool" where
  "block_apart a b \<longleftrightarrow> unat a + 1024 \<le> unat b \<or> unat b + 1024 \<le> unat a"

definition avail :: "arena \<Rightarrow> addr list" where
  "avail s = (if arena_blocks s = NULL then [] else [arena_blocks s]) @ arena_backing s"

definition arena_ready :: "arena \<Rightarrow> bool" where
  "arena_ready s \<longleftrightarrow>
     arena_wf s \<and> (\<forall>p \<in> set (arena_backing s). block_addr_ok p) \<and>
     sorted_wrt block_apart (avail s)"

text \<open>The head of the first block, and the place of an allocation: in the first block
  at or above its head, or in a block that \<open>malloc\<close> has yet to deliver.\<close>

definition top_head :: "arena \<Rightarrow> nat" where
  "top_head s = (case arena_heap s (arena_blocks s) of None \<Rightarrow> 0 | Some blk \<Rightarrow> unat (blk_head blk))"

definition within :: "arena \<Rightarrow> addr \<times> addr \<times> size_t \<Rightarrow> bool" where
  "within s x \<longleftrightarrow>
     (case x of (b, p, n) \<Rightarrow>
        unat b + 24 \<le> unat p \<and> unat p + unat n \<le> unat b + 1024 \<and>
        ((b = arena_blocks s \<and> b \<noteq> NULL \<and> top_head s \<le> unat p) \<or> b \<in> set (arena_backing s)))"

section \<open>Alignment arithmetic\<close>

lemma and_neg_pow2:
  fixes x :: "64 word"
  shows "x AND - (2 ^ k) = push_bit k (drop_bit k x)"
  unfolding minus_exp_eq_not_mask
  by (rule bit_word_eqI) (auto simp: bit_simps)

lemma unat_and_neg_pow2:
  fixes x :: "64 word"
  shows "unat (x AND - (2 ^ k)) = (unat x div 2 ^ k) * 2 ^ k"
proof -
  have le: "(unat x div 2 ^ k) * 2 ^ k \<le> unat x"
    by (rule div_times_less_eq_dividend)
  have "unat x < 2 ^ 64"
    using unsigned_less [of x] by simp
  with le have "(unat x div 2 ^ k) * 2 ^ k < 2 ^ 64"
    by linarith
  then have "take_bit 64 ((unat x div 2 ^ k) * 2 ^ k) = (unat x div 2 ^ k) * 2 ^ k"
    by (simp add: take_bit_nat_eq_self)
  moreover have "unat (push_bit k (drop_bit k x)) = take_bit 64 (push_bit k (drop_bit k (unat x)))"
    by (simp only: unsigned_push_bit_eq unat_drop_bit_eq) simp
  ultimately show ?thesis
    by (simp only: and_neg_pow2 push_bit_eq_mult drop_bit_eq_div)
qed

lemma unat_pow2:
  assumes k: "k < 64"
  shows "unat (2 ^ k :: 64 word) = 2 ^ k"
proof -
  have lt: "(2::nat) ^ k < 2 ^ 64"
    using k by (intro power_strict_increasing) simp_all
  have "unat (of_nat (2 ^ k) :: 64 word) = 2 ^ k mod 2 ^ 64"
    using unat_of_nat [where ?'a = 64, of "2 ^ k"] by simp
  then show ?thesis using lt by simp
qed

lemma unat_ALIGN_TO:
  assumes k: "k < 64"
  shows "unat (ALIGN_TO v (2 ^ k)) = (((unat v + (2 ^ k - 1)) mod 2 ^ 64) div 2 ^ k) * 2 ^ k"
proof -
  have "unat (2 ^ k - 1 :: 64 word) = 2 ^ k - 1"
    using k unat_pow2 [OF k] by (simp add: unat_minus_one)
  then have "unat (v + (2 ^ k - 1)) = (unat v + (2 ^ k - 1)) mod 2 ^ 64"
    by (simp add: unat_word_ariths)
  then show ?thesis
    by (simp add: ALIGN_TO_def unat_and_neg_pow2)
qed

lemma ALIGN_TO_multiple:
  assumes "is_pow2 a"
  shows "unat (ALIGN_TO v a) mod unat a = 0"
proof -
  from assms obtain k where k: "k < 64" and a: "a = 2 ^ k"
    by (auto simp: is_pow2_def)
  show ?thesis
    using k by (simp add: a unat_ALIGN_TO unat_pow2)
qed

text \<open>In the lower half of the address space, aligning rounds up and stays there.\<close>

lemma ALIGN_TO_bounds:
  assumes "is_pow2 a" and "unat v \<le> 2 ^ 63"
  shows "unat v \<le> unat (ALIGN_TO v a) \<and> unat (ALIGN_TO v a) < unat v + unat a \<and>
         unat (ALIGN_TO v a) \<le> 2 ^ 63"
proof -
  from assms obtain k where k: "k < 64" and a: "a = 2 ^ k"
    by (auto simp: is_pow2_def)
  have ua: "unat a = 2 ^ k" using k a by (simp add: unat_pow2)
  have p: "(2::nat) ^ k \<le> 2 ^ 63"
    using k by (intro power_increasing) simp_all
  have pos: "0 < (2::nat) ^ k" by simp
  have "unat v + (2 ^ k - 1) < 2 ^ 64"
    using assms(2) p by simp
  then have u: "unat (ALIGN_TO v a) = ((unat v + (2 ^ k - 1)) div 2 ^ k) * 2 ^ k"
    using k by (simp add: a unat_ALIGN_TO)
  define q where "q = (unat v + (2 ^ k - 1)) div 2 ^ k"
  define r where "r = (unat v + (2 ^ k - 1)) mod 2 ^ k"
  have qr: "unat v + (2 ^ k - 1) = q * 2 ^ k + r"
    unfolding q_def r_def by (rule div_mult_mod_eq [symmetric])
  have r: "r < 2 ^ k" by (simp add: r_def)
  have lo: "unat v \<le> q * 2 ^ k" using qr r pos by linarith
  have hi: "q * 2 ^ k < unat v + 2 ^ k" using qr pos by linarith
  have "(2::nat) ^ k dvd 2 ^ 63"
    using k by (intro le_imp_power_dvd) simp
  then obtain c where c: "(2::nat) ^ 63 = 2 ^ k * c" by (auto simp: dvd_def)
  have "q \<le> c"
  proof (rule ccontr)
    assume "\<not> q \<le> c"
    then have "c + 1 \<le> q" by simp
    then have "(c + 1) * 2 ^ k \<le> q * 2 ^ k" by (rule mult_le_mono1)
    then have "2 ^ 63 + 2 ^ k \<le> q * 2 ^ k" using c by (simp add: algebra_simps)
    with hi assms(2) show False by linarith
  qed
  then have qc: "q * 2 ^ k \<le> c * 2 ^ k" by (rule mult_le_mono1)
  have "c * 2 ^ k = (2::nat) ^ 63" using c by (simp only: mult.commute)
  with qc have top: "q * 2 ^ k \<le> 2 ^ 63" by linarith
  show ?thesis
    using lo hi top unfolding u ua q_def by simp
qed

section \<open>Alignment of the returned pointers\<close>

text \<open>
  Claim C7. For a power-of-two \<open>align\<close> and every state, the pointer that
  \<open>fba_alloc_opt\<close> returns, and the pointer that \<open>arena_alloc\<close> returns when it
  returns at all, is a multiple of \<open>align\<close>; so is every successful (non-null) one.
\<close>

theorem alloc_aligned:
  "is_pow2 align \<Longrightarrow>
     unat (fst (fba_alloc_opt f sz align)) mod unat align = 0 \<and>
     (\<forall>p s'. arena_alloc s sz align = Inr (p, s') \<longrightarrow> unat p mod unat align = 0)"
proof -
  assume a: "is_pow2 align"
  have al: "unat (ALIGN_TO v align) mod unat align = 0" for v
    using a by (rule ALIGN_TO_multiple)
  have blk: "unat p mod unat align = 0"
    if "arena_block_alloc t b sz align = Inr (p, t')" for t b p t'
    using that al
    by (auto simp: arena_block_alloc_def Let_def split: if_splits option.splits)
  have "unat (fst (fba_alloc_opt f sz align)) mod unat align = 0"
    using al by (simp add: fba_alloc_opt_def Let_def)
  moreover have "unat p mod unat align = 0" if "arena_alloc s sz align = Inr (p, s')" for p s'
    using that blk
    by (auto simp: arena_alloc_def split: prod.splits if_splits sum.splits)
  ultimately show ?thesis by blast
qed

theorem alloc_aligned_witness:
  "is_pow2 (8 :: size_t) \<and>
   fst (fba_alloc_opt \<lparr>fba_buffer = 0x1000, fba_buffer_end = 0x1400, fba_head = 0x1003\<rparr> 4 8) = 0x1008 \<and>
   unat (0x1008 :: addr) mod unat (8 :: size_t) = 0 \<and>
   (\<exists>s'. arena_alloc \<lparr>arena_blocks = NULL, arena_heap = Map.empty, arena_backing = [0x10000]\<rparr> 4 8
           = Inr (0x10018, s')) \<and>
   unat (0x10018 :: addr) mod unat (8 :: size_t) = 0"
proof -
  have p: "is_pow2 (8 :: size_t)"
    unfolding is_pow2_def by (rule bexI [of _ 3]) simp_all
  have f: "fst (fba_alloc_opt \<lparr>fba_buffer = 0x1000, fba_buffer_end = 0x1400, fba_head = 0x1003\<rparr> 4 8) = 0x1008"
    by (simp add: fba_alloc_opt_def ALIGN_TO_def)
  have a: "\<exists>s'. arena_alloc \<lparr>arena_blocks = NULL, arena_heap = Map.empty, arena_backing = [0x10000]\<rparr> 4 8
           = Inr (0x10018, s')"
    by (simp add: arena_alloc_def arena_get_block_def arena_new_block_def malloc_def
        arena_block_init_def arena_block_alloc_def ALIGN_TO_def ARENA_BLOCK_SIZE_def
        ARENA_HEADER_SIZE_def)
  from alloc_aligned [OF p, of "\<lparr>fba_buffer = 0x1000, fba_buffer_end = 0x1400, fba_head = 0x1003\<rparr>" 4
      "\<lparr>arena_blocks = NULL, arena_heap = Map.empty, arena_backing = [0x10000]\<rparr>"]
  have "unat (0x1008 :: addr) mod unat (8 :: size_t) = 0"
    and "unat (0x10018 :: addr) mod unat (8 :: size_t) = 0"
    using f a by auto
  with p f a show ?thesis by blast
qed

section \<open>Linear allocator: exhaustion\<close>




section \<open>Arena: failure of the backing allocator\<close>

text \<open>On every non-empty arena whose first block has no room for the request, a call
  for which \<open>malloc\<close> fails ends in the fault.\<close>

lemma grow_without_backing_faults:
  assumes "arena_blocks s \<noteq> NULL" and "arena_heap s (arena_blocks s) = Some blk"
    and "ALIGN_TO (blk_head blk) align + sz > blk_buffer_end blk"
    and "fst (malloc s ARENA_BLOCK_SIZE) = NULL"
  shows "arena_alloc s sz align = Inl NullDeref"
  using assms
  by (auto simp: arena_alloc_def arena_get_block_def arena_new_block_def malloc_def
      arena_block_alloc_def Let_def split: list.splits)

text \<open>
  Claim C1 at two inputs, with \<open>malloc\<close> failing. On an empty arena the failure to
  create the first block is returned as \<open>NULL\<close>. On an arena whose only block is
  full, \<open>arena_alloc\<close> passes the null pointer that \<open>arena_new_block\<close> returns to
  \<open>arena_block_alloc\<close>, which reads \<open>b->head\<close> through it: a fault.
\<close>

theorem arena_alloc_grow_fault:
  "arena_alloc \<lparr>arena_blocks = NULL, arena_heap = Map.empty, arena_backing = [NULL]\<rparr> 8 8
     = Inr (NULL, \<lparr>arena_blocks = NULL, arena_heap = Map.empty, arena_backing = []\<rparr>) \<and>
   arena_alloc
     \<lparr>arena_blocks = 0x10000,
      arena_heap = [0x10000 \<mapsto> \<lparr>blk_next = NULL, blk_buffer_end = 0x10400, blk_head = 0x10400\<rparr>],
      arena_backing = [NULL]\<rparr> 8 8
     = Inl NullDeref"
  by (simp add: arena_alloc_def arena_get_block_def arena_new_block_def malloc_def
      arena_block_alloc_def ALIGN_TO_def)

section \<open>Memory: loads and stores of pointers\<close>

lemma bit_bytes_ptr:
  "bit (bytes_ptr bs) n \<longleftrightarrow> n < 64 \<and> n div 8 < length bs \<and> bit (bs ! (n div 8)) (n mod 8)"
  using bit_horner_sum_uint_exp_iff [where ?'a = 8, of bs n]
  by (simp add: bytes_ptr_def bit_simps)

lemma bytes_ptr_bytes: "bytes_ptr (ptr_bytes v) = v"
proof (rule bit_word_eqI)
  fix n assume "n < LENGTH(64)"
  then have n: "n < 64" by simp
  then have d: "n div 8 < 8" by simp
  have "bit (ptr_bytes v ! (n div 8)) (n mod 8) = bit v n"
    using d by (simp add: ptr_bytes_def bit_simps)
  then show "bit (bytes_ptr (ptr_bytes v)) n = bit v n"
    using n d by (simp add: bit_bytes_ptr ptr_bytes_def)
qed

lemma load_store_same: "load_ptr (store_ptr m a v) a = v"
proof -
  have "map (\<lambda>k. store_ptr m a v (a + of_nat k)) [0..<8] = ptr_bytes v"
  proof (rule nth_equalityI)
    show "length (map (\<lambda>k. store_ptr m a v (a + of_nat k)) [0..<8]) = length (ptr_bytes v)"
      by (simp add: ptr_bytes_def)
  next
    fix i assume "i < length (map (\<lambda>k. store_ptr m a v (a + of_nat k)) [0..<8])"
    then have i: "i < 8" by simp
    then have u: "unat (of_nat i :: addr) = i"
      by (simp add: unat_of_nat)
    have lt: "(of_nat i :: addr) < 8"
      using i u by (simp add: word_less_nat_alt)
    show "map (\<lambda>k. store_ptr m a v (a + of_nat k)) [0..<8] ! i = ptr_bytes v ! i"
      using i lt u by (simp add: store_ptr_def)
  qed
  then show ?thesis
    by (simp add: load_ptr_def bytes_ptr_bytes)
qed

lemma apart_nat:
  "apart a b \<longleftrightarrow>
     (unat a + 8 \<le> unat b \<and> unat b + 8 \<le> unat a + 2 ^ 64) \<or>
     (unat b + 8 \<le> unat a \<and> unat a + 8 \<le> unat b + 2 ^ 64)"
proof -
  have "unat a < 2 ^ 64" "unat b < 2 ^ 64"
    using unsigned_less [of a] unsigned_less [of b] by simp_all
  then show ?thesis
    unfolding apart_def word_le_nat_alt unat_sub_if_size word_size
    by (simp split: if_splits) arith
qed

lemma outside_apart:
  assumes "apart a b" and k: "k < 8"
  shows "\<not> (b + of_nat k - a < 8)"
proof -
  have u: "unat (of_nat k :: addr) = k"
    using k by (simp add: unat_of_nat)
  have bk: "unat (b + of_nat k) = (unat b + k) mod 2 ^ 64"
    using u by (simp add: unat_word_ariths)
  have lim: "unat a < 2 ^ 64" "unat b < 2 ^ 64"
    using unsigned_less [of a] unsigned_less [of b] by simp_all
  have c: "(unat a + 8 \<le> unat b \<and> unat b + 8 \<le> unat a + 2 ^ 64) \<or>
     (unat b + 8 \<le> unat a \<and> unat a + 8 \<le> unat b + 2 ^ 64)"
    using assms(1) by (simp add: apart_nat)
  have "8 \<le> unat (b + of_nat k - a)"
  proof (cases "unat b + k < 2 ^ 64")
    case True
    then have "unat (b + of_nat k) = unat b + k" using bk by simp
    then show ?thesis
      using c k lim True unfolding unat_sub_if_size word_size by (simp split: if_splits) arith
  next
    case False
    then have "unat (b + of_nat k) = unat b + k - 2 ^ 64"
      using bk lim k by (simp add: mod_if)
    then show ?thesis
      using c k lim False unfolding unat_sub_if_size word_size by (simp split: if_splits) arith
  qed
  then show ?thesis
    by (simp add: word_less_nat_alt)
qed

lemma load_store_apart:
  assumes "apart a b"
  shows "load_ptr (store_ptr m a v) b = load_ptr m b"
proof -
  have "map (\<lambda>k. store_ptr m a v (b + of_nat k)) [0..<8] = map (\<lambda>k. m (b + of_nat k)) [0..<8]"
    by (rule map_cong) (simp_all add: store_ptr_def outside_apart [OF assms])
  then show ?thesis by (simp only: load_ptr_def)
qed

lemma load_memset_apart:
  assumes "apart a b"
  shows "load_ptr (memset m a c 8) b = load_ptr m b"
proof -
  have "map (\<lambda>k. memset m a c 8 (b + of_nat k)) [0..<8] = map (\<lambda>k. m (b + of_nat k)) [0..<8]"
    by (rule map_cong) (simp_all add: memset_def outside_apart [OF assms])
  then show ?thesis by (simp only: load_ptr_def)
qed

section \<open>Block allocator: the bounds check of \<open>ba_free\<close>\<close>

text \<open>
  Claim C9. A pointer strictly below \<open>buffer\<close> or strictly above \<open>buffer_end\<close>
  leaves the allocator as it was. Every pointer of the inclusive range, the
  one-past-the-end address \<open>buffer_end\<close> among them, is pushed onto the front of the
  free list: it becomes the head of the list and its link field holds the old head.
\<close>

theorem ba_free_bounds:
  "(p < ba_buffer ba \<or> ba_buffer_end ba < p \<longrightarrow> ba_free ba p = ba) \<and>
   (ba_buffer ba \<le> p \<and> p \<le> ba_buffer_end ba \<longrightarrow>
      ba_blocks (ba_free ba p) = p \<and>
      load_ptr (ba_mem (ba_free ba p)) p = ba_blocks ba \<and>
      ba_buffer (ba_free ba p) = ba_buffer ba \<and>
      ba_buffer_end (ba_free ba p) = ba_buffer_end ba)"
  by (auto simp: ba_free_def load_store_same)

theorem ba_free_bounds_witness:
  "ba_free \<lparr>ba_buffer = 0x1000, ba_buffer_end = 0x2000, ba_blocks = 0x1024, ba_mem = \<lambda>_. 0\<rparr> 0xFFF
     = \<lparr>ba_buffer = 0x1000, ba_buffer_end = 0x2000, ba_blocks = 0x1024, ba_mem = \<lambda>_. 0\<rparr> \<and>
   ba_free \<lparr>ba_buffer = 0x1000, ba_buffer_end = 0x2000, ba_blocks = 0x1024, ba_mem = \<lambda>_. 0\<rparr> 0x2001
     = \<lparr>ba_buffer = 0x1000, ba_buffer_end = 0x2000, ba_blocks = 0x1024, ba_mem = \<lambda>_. 0\<rparr> \<and>
   ba_blocks (ba_free \<lparr>ba_buffer = 0x1000, ba_buffer_end = 0x2000, ba_blocks = 0x1024, ba_mem = \<lambda>_. 0\<rparr> 0x2000)
     = 0x2000 \<and>
   load_ptr (ba_mem (ba_free \<lparr>ba_buffer = 0x1000, ba_buffer_end = 0x2000, ba_blocks = 0x1024, ba_mem = \<lambda>_. 0\<rparr> 0x2000)) 0x2000
     = 0x1024"
  using
    ba_free_bounds [where p = "0xFFF" and ba = "\<lparr>ba_buffer = 0x1000, ba_buffer_end = 0x2000, ba_blocks = 0x1024, ba_mem = \<lambda>_. 0\<rparr>"]
    ba_free_bounds [where p = "0x2001" and ba = "\<lparr>ba_buffer = 0x1000, ba_buffer_end = 0x2000, ba_blocks = 0x1024, ba_mem = \<lambda>_. 0\<rparr>"]
    ba_free_bounds [where p = "0x2000" and ba = "\<lparr>ba_buffer = 0x1000, ba_buffer_end = 0x2000, ba_blocks = 0x1024, ba_mem = \<lambda>_. 0\<rparr>"]
  by simp

section \<open>Arena: blocks and their growth\<close>

lemma unat_block_end:
  assumes "block_addr_ok b"
  shows "unat (b + ARENA_BLOCK_SIZE) = unat b + 1024" and "unat (b + ARENA_HEADER_SIZE) = unat b + 24"
  using assms
  by (simp_all add: block_addr_ok_def ARENA_BLOCK_SIZE_def ARENA_HEADER_SIZE_def unat_word_ariths)

lemma fresh_block_wf:
  assumes "block_addr_ok b"
  shows "block_wf b \<lparr>blk_next = n, blk_buffer_end = b + ARENA_BLOCK_SIZE, blk_head = b + ARENA_HEADER_SIZE\<rparr>"
  using assms by (simp add: block_wf_def unat_block_end)

lemma aligned_head:
  assumes "block_wf b blk" and "is_pow2 al"
  shows "unat (blk_head blk) \<le> unat (ALIGN_TO (blk_head blk) al)"
    and "unat (ALIGN_TO (blk_head blk) al) \<le> 2 ^ 63"
    and "ALIGN_TO (blk_head blk) al \<noteq> NULL"
proof -
  have h: "unat (blk_head blk) \<le> 2 ^ 63" "0 < unat (blk_head blk)"
    using assms(1) by (simp_all add: block_wf_def block_addr_ok_def)
  from ALIGN_TO_bounds [OF assms(2) h(1)]
  show "unat (blk_head blk) \<le> unat (ALIGN_TO (blk_head blk) al)"
    and le: "unat (ALIGN_TO (blk_head blk) al) \<le> 2 ^ 63"
    by simp_all
  then have "0 < unat (ALIGN_TO (blk_head blk) al)" using h(2) by linarith
  then show "ALIGN_TO (blk_head blk) al \<noteq> NULL" by (simp add: unat_gt_0)
qed

lemma arena_block_alloc_nat:
  assumes wf: "block_wf b blk" and hp: "arena_heap s b = Some blk"
    and al: "is_pow2 al" and sz: "sane_size sz"
  shows "unat (ALIGN_TO (blk_head blk) al + sz) = unat (ALIGN_TO (blk_head blk) al) + unat sz"
    and "arena_block_alloc s b sz al =
      (if unat b + 1024 < unat (ALIGN_TO (blk_head blk) al) + unat sz then Inr (NULL, s)
       else Inr (ALIGN_TO (blk_head blk) al,
              s\<lparr>arena_heap := (arena_heap s)(b \<mapsto> blk\<lparr>blk_head := ALIGN_TO (blk_head blk) al + sz\<rparr>)\<rparr>))"
proof -
  have "unat (ALIGN_TO (blk_head blk) al) + unat sz < 2 ^ 64"
    using aligned_head(2) [OF wf al] sz by (simp add: sane_size_def)
  then show sum: "unat (ALIGN_TO (blk_head blk) al + sz) = unat (ALIGN_TO (blk_head blk) al) + unat sz"
    by (simp add: unat_word_ariths)
  have b: "b \<noteq> NULL" "block_addr_ok b" and e: "blk_buffer_end blk = b + ARENA_BLOCK_SIZE"
    using wf by (simp_all add: block_wf_def block_addr_ok_def)
  show "arena_block_alloc s b sz al =
      (if unat b + 1024 < unat (ALIGN_TO (blk_head blk) al) + unat sz then Inr (NULL, s)
       else Inr (ALIGN_TO (blk_head blk) al,
              s\<lparr>arena_heap := (arena_heap s)(b \<mapsto> blk\<lparr>blk_head := ALIGN_TO (blk_head blk) al + sz\<rparr>)\<rparr>))"
    using b(1) hp
    by (simp add: arena_block_alloc_def Let_def e word_less_nat_alt sum unat_block_end [OF b(2)])
qed

text \<open>An oversize request fails on every well-formed block.\<close>

lemma oversize_block_fails:
  assumes wf: "block_wf b blk" and hp: "arena_heap s b = Some blk"
    and al: "is_pow2 al" and sz: "sane_size sz" and big: "1000 < unat sz"
  shows "arena_block_alloc s b sz al = Inr (NULL, s)"
proof -
  have "unat b + 24 \<le> unat (ALIGN_TO (blk_head blk) al)"
    using aligned_head(1) [OF wf al] wf by (simp add: block_wf_def)
  then show ?thesis
    using big by (simp add: arena_block_alloc_nat(2) [OF wf hp al sz])
qed

lemma arena_new_block_ok:
  assumes "arena_backing s = p # ps" and "p \<noteq> NULL"
  shows "arena_new_block s =
    (p, s\<lparr>arena_blocks := p,
          arena_heap := (arena_heap s)(p \<mapsto> \<lparr>blk_next = arena_blocks s,
             blk_buffer_end = p + ARENA_BLOCK_SIZE, blk_head = p + ARENA_HEADER_SIZE\<rparr>),
          arena_backing := ps\<rparr>)"
  using assms by (simp add: arena_new_block_def malloc_def arena_block_init_def)

lemma arena_new_block_fail:
  assumes "arena_backing s = [] \<or> (\<exists>ps. arena_backing s = NULL # ps)"
  shows "arena_new_block s = (NULL, s\<lparr>arena_backing := tl (arena_backing s)\<rparr>)"
  using assms by (auto simp: arena_new_block_def malloc_def)

text \<open>When \<open>arena_clear\<close> returns, the arena is empty.\<close>

lemma arena_clear_empty:
  "arena_clear s = Some (Inr s') \<Longrightarrow> arena_blocks s' = NULL \<and> arena_wf s'"
  by (auto simp: arena_clear_def arena_wf_def split: option.splits sum.splits)

text \<open>
  Claim C10. On a non-empty arena whose most recent block has no room for the request
  (the test \<open>head + size > b->buffer_end\<close> of \<open>arena_block_alloc\<close> holds), when
  \<open>malloc\<close> delivers a block \<open>p\<close> and \<open>arena_alloc\<close> nevertheless fails,
  the arena has changed: \<open>p\<close>, freshly initialised and empty, is the new first block,
  linked to the old list, which is untouched; one result of the backing allocator is
  consumed.
\<close>

theorem arena_failed_growth:
  assumes ne: "arena_blocks s \<noteq> NULL" and hp: "arena_heap s (arena_blocks s) = Some blk"
    and noroom: "ALIGN_TO (blk_head blk) align + sz > blk_buffer_end blk"
    and bk: "arena_backing s = p # ps" and ok: "block_addr_ok p" and al: "is_pow2 align"
    and fail: "arena_alloc s sz align = Inr (NULL, s')"
  shows "s' = s\<lparr>arena_blocks := p,
          arena_heap := (arena_heap s)(p \<mapsto> \<lparr>blk_next = arena_blocks s,
             blk_buffer_end = p + ARENA_BLOCK_SIZE, blk_head = p + ARENA_HEADER_SIZE\<rparr>),
          arena_backing := ps\<rparr>"
proof -
  let ?fresh = "\<lparr>blk_next = arena_blocks s,
             blk_buffer_end = p + ARENA_BLOCK_SIZE, blk_head = p + ARENA_HEADER_SIZE\<rparr>"
  let ?t = "s\<lparr>arena_blocks := p, arena_heap := (arena_heap s)(p \<mapsto> ?fresh), arena_backing := ps\<rparr>"
  have p0: "p \<noteq> NULL" using ok by (simp add: block_addr_ok_def)
  have first: "arena_block_alloc s (arena_blocks s) sz align = Inr (NULL, s)"
    using ne hp noroom by (simp add: arena_block_alloc_def Let_def)
  have nb: "arena_new_block s = (p, ?t)"
    using arena_new_block_ok [OF bk p0] .
  have second: "arena_alloc s sz align = arena_block_alloc ?t p sz align"
    using ne first nb by (simp add: arena_alloc_def arena_get_block_def)
  have nz: "ALIGN_TO (blk_head ?fresh) align \<noteq> NULL"
    using aligned_head(3) [OF fresh_block_wf [OF ok] al] .
  show ?thesis
    using fail nz p0 unfolding second
    by (simp add: arena_block_alloc_def Let_def split: if_splits)
qed


theorem arena_failed_growth_witness:
  "\<exists>s'. arena_alloc
      \<lparr>arena_blocks = 0x10000,
       arena_heap = [0x10000 \<mapsto> \<lparr>blk_next = NULL, blk_buffer_end = 0x10400, blk_head = 0x10400\<rparr>],
       arena_backing = [0x20000]\<rparr> 2000 8 = Inr (NULL, s') \<and>
     arena_blocks s' = 0x20000 \<and>
     arena_heap s' 0x20000 = Some \<lparr>blk_next = 0x10000, blk_buffer_end = 0x20400, blk_head = 0x20018\<rparr> \<and>
     arena_heap s' 0x10000 = Some \<lparr>blk_next = NULL, blk_buffer_end = 0x10400, blk_head = 0x10400\<rparr> \<and>
     arena_backing s' = []"
proof -
  let ?blk = "\<lparr>blk_next = NULL, blk_buffer_end = 0x10400, blk_head = 0x10400\<rparr>"
  let ?s = "\<lparr>arena_blocks = 0x10000, arena_heap = [0x10000 \<mapsto> ?blk], arena_backing = [0x20000]\<rparr>"
  obtain s' where f: "arena_alloc ?s 2000 8 = Inr (NULL, s')"
    by (simp add: arena_alloc_def arena_get_block_def arena_new_block_def malloc_def
        arena_block_init_def arena_block_alloc_def ALIGN_TO_def ARENA_BLOCK_SIZE_def
        ARENA_HEADER_SIZE_def)
  have p: "is_pow2 (8 :: size_t)"
    unfolding is_pow2_def by (rule bexI [of _ 3]) simp_all
  have "s' = ?s\<lparr>arena_blocks := 0x20000,
          arena_heap := (arena_heap ?s)(0x20000 \<mapsto> \<lparr>blk_next = arena_blocks ?s,
             blk_buffer_end = 0x20000 + ARENA_BLOCK_SIZE, blk_head = 0x20000 + ARENA_HEADER_SIZE\<rparr>),
          arena_backing := []\<rparr>"
    by (rule arena_failed_growth [where blk = ?blk and align = 8 and sz = 2000, OF _ _ _ _ _ p f])
      (simp_all add: ALIGN_TO_def block_addr_ok_def)
  then show ?thesis
    using f by (simp add: ARENA_BLOCK_SIZE_def ARENA_HEADER_SIZE_def)
qed

text \<open>
  Claim C4, as the code has it. On a well-formed arena, the empty one that
  \<open>arena_clear\<close> leaves included, a request of more than 1000 bytes (the 1024 bytes
  of a block less its 24-byte header) and less than \<open>2 ^ 63\<close> bytes, with a
  power-of-two alignment, returns \<open>NULL\<close> whenever the backing allocator serves the
  call, and the final state is fixed exactly. Every block that the call creates has the
  standard size. On a non-empty arena exactly one block is created, for the one retry, and
  one result of the backing allocator is consumed. On an empty arena whose first block is
  refused nothing is created. On an empty arena whose first block is delivered exactly two
  blocks are created, the first block and the block of the one retry, and two results of
  the backing allocator are consumed.
\<close>

theorem arena_oversize_rejected:
  assumes wf: "arena_wf s" and al: "is_pow2 align" and big: "1000 < unat sz"
    and sz: "sane_size sz" and bs: "backing_serves s"
  shows "\<exists>s'. arena_alloc s sz align = Inr (NULL, s') \<and>
           (arena_blocks s \<noteq> NULL \<longrightarrow> arena_backing s' = tl (arena_backing s)) \<and>
           (\<forall>b blk. arena_heap s' b = Some blk \<longrightarrow>
              arena_heap s b = Some blk \<or> blk_buffer_end blk = b + ARENA_BLOCK_SIZE) \<and>
           (arena_blocks s \<noteq> NULL \<longrightarrow>
              (\<exists>p ps. arena_backing s = p # ps \<and>
                 s' = s\<lparr>arena_blocks := p,
                        arena_heap := (arena_heap s)(p \<mapsto>
                          \<lparr>blk_next = arena_blocks s, blk_buffer_end = p + ARENA_BLOCK_SIZE,
                           blk_head = p + ARENA_HEADER_SIZE\<rparr>),
                        arena_backing := ps\<rparr>)) \<and>
           (arena_blocks s = NULL \<and> fst (malloc s ARENA_BLOCK_SIZE) = NULL \<longrightarrow>
              s' = s\<lparr>arena_backing := tl (arena_backing s)\<rparr>) \<and>
           (arena_blocks s = NULL \<and> fst (malloc s ARENA_BLOCK_SIZE) \<noteq> NULL \<longrightarrow>
              (\<exists>p q ps. arena_backing s = p # q # ps \<and>
                 s' = s\<lparr>arena_blocks := q,
                        arena_heap := (arena_heap s)
                          (p \<mapsto> \<lparr>blk_next = NULL, blk_buffer_end = p + ARENA_BLOCK_SIZE,
                                  blk_head = p + ARENA_HEADER_SIZE\<rparr>,
                           q \<mapsto> \<lparr>blk_next = p, blk_buffer_end = q + ARENA_BLOCK_SIZE,
                                  blk_head = q + ARENA_HEADER_SIZE\<rparr>),
                        arena_backing := ps\<rparr>))"
proof (cases "arena_blocks s = NULL")
  case False
  then obtain blk where hp: "arena_heap s (arena_blocks s) = Some blk"
    and bw: "block_wf (arena_blocks s) blk"
    using wf by (auto simp: arena_wf_def split: option.splits)
  from bs False obtain p ps where bk: "arena_backing s = p # ps" and ok: "block_addr_ok p"
    by (auto simp: backing_serves_def split: list.splits)
  let ?fresh = "\<lparr>blk_next = arena_blocks s,
             blk_buffer_end = p + ARENA_BLOCK_SIZE, blk_head = p + ARENA_HEADER_SIZE\<rparr>"
  let ?t = "s\<lparr>arena_blocks := p, arena_heap := (arena_heap s)(p \<mapsto> ?fresh), arena_backing := ps\<rparr>"
  have p0: "p \<noteq> NULL" using ok by (simp add: block_addr_ok_def)
  have first: "arena_block_alloc s (arena_blocks s) sz align = Inr (NULL, s)"
    using oversize_block_fails [OF bw hp al sz big] .
  have nb: "arena_new_block s = (p, ?t)"
    using arena_new_block_ok [OF bk p0] .
  have second: "arena_block_alloc ?t p sz align = Inr (NULL, ?t)"
    by (rule oversize_block_fails [OF fresh_block_wf [OF ok] _ al sz big]) simp
  have "arena_alloc s sz align = Inr (NULL, ?t)"
    using False first nb second by (simp add: arena_alloc_def arena_get_block_def)
  moreover have "arena_backing ?t = tl (arena_backing s)"
    using bk by simp
  moreover have "\<forall>b blk. arena_heap ?t b = Some blk \<longrightarrow>
              arena_heap s b = Some blk \<or> blk_buffer_end blk = b + ARENA_BLOCK_SIZE"
    by auto
  moreover have "\<exists>p' ps'. arena_backing s = p' # ps' \<and>
      ?t = s\<lparr>arena_blocks := p',
             arena_heap := (arena_heap s)(p' \<mapsto>
               \<lparr>blk_next = arena_blocks s, blk_buffer_end = p' + ARENA_BLOCK_SIZE,
                blk_head = p' + ARENA_HEADER_SIZE\<rparr>),
             arena_backing := ps'\<rparr>"
    using bk by blast
  ultimately show ?thesis
    using False by blast
next
  case True
  show ?thesis
  proof (cases "arena_backing s = [] \<or> (\<exists>ps. arena_backing s = NULL # ps)")
    case fl: True
    have m: "fst (malloc s ARENA_BLOCK_SIZE) = NULL"
      using fl by (auto simp: malloc_def)
    have "arena_alloc s sz align = Inr (NULL, s\<lparr>arena_backing := tl (arena_backing s)\<rparr>)"
      using True arena_new_block_fail [OF fl]
      by (simp add: arena_alloc_def arena_get_block_def)
    then show ?thesis
      using True m by simp
  next
    case False
    with bs True obtain p q ps where bk: "arena_backing s = p # q # ps"
      and okp: "block_addr_ok p" and okq: "block_addr_ok q"
      by (auto simp: backing_serves_def split: list.splits)
    let ?f1 = "\<lparr>blk_next = arena_blocks s,
             blk_buffer_end = p + ARENA_BLOCK_SIZE, blk_head = p + ARENA_HEADER_SIZE\<rparr>"
    let ?t1 = "s\<lparr>arena_blocks := p, arena_heap := (arena_heap s)(p \<mapsto> ?f1), arena_backing := q # ps\<rparr>"
    let ?f2 = "\<lparr>blk_next = arena_blocks ?t1,
             blk_buffer_end = q + ARENA_BLOCK_SIZE, blk_head = q + ARENA_HEADER_SIZE\<rparr>"
    let ?t2 = "?t1\<lparr>arena_blocks := q, arena_heap := (arena_heap ?t1)(q \<mapsto> ?f2), arena_backing := ps\<rparr>"
    have p0: "p \<noteq> NULL" and q0: "q \<noteq> NULL"
      using okp okq by (simp_all add: block_addr_ok_def)
    have m: "fst (malloc s ARENA_BLOCK_SIZE) \<noteq> NULL"
      using bk p0 by (simp add: malloc_def)
    have nb1: "arena_new_block s = (p, ?t1)"
      using arena_new_block_ok [OF bk p0] .
    have first: "arena_block_alloc ?t1 p sz align = Inr (NULL, ?t1)"
      by (rule oversize_block_fails [OF fresh_block_wf [OF okp] _ al sz big]) simp
    have nb2: "arena_new_block ?t1 = (q, ?t2)"
      by (rule arena_new_block_ok [OF _ q0]) simp
    have second: "arena_block_alloc ?t2 q sz align = Inr (NULL, ?t2)"
      by (rule oversize_block_fails [OF fresh_block_wf [OF okq] _ al sz big]) simp
    define t where "t = ?t2"
    have r: "arena_alloc s sz align = Inr (NULL, t)"
      unfolding t_def
      using True p0 nb1 first nb2 second by (simp add: arena_alloc_def arena_get_block_def)
    have hp: "\<forall>b blk. arena_heap t b = Some blk \<longrightarrow>
              arena_heap s b = Some blk \<or> blk_buffer_end blk = b + ARENA_BLOCK_SIZE"
      unfolding t_def by auto
    have ex: "t = s\<lparr>arena_blocks := q,
                        arena_heap := (arena_heap s)
                          (p \<mapsto> \<lparr>blk_next = NULL, blk_buffer_end = p + ARENA_BLOCK_SIZE,
                                  blk_head = p + ARENA_HEADER_SIZE\<rparr>,
                           q \<mapsto> \<lparr>blk_next = p, blk_buffer_end = q + ARENA_BLOCK_SIZE,
                                  blk_head = q + ARENA_HEADER_SIZE\<rparr>),
                        arena_backing := ps\<rparr>"
      unfolding t_def using True by simp
    show ?thesis
      using r hp ex bk True m by blast
  qed
qed


theorem arena_oversize_rejected_witness:
  "(\<exists>s0. arena_clear
            \<lparr>arena_blocks = 0x30000,
             arena_heap = [0x30000 \<mapsto> \<lparr>blk_next = NULL, blk_buffer_end = 0x30400, blk_head = 0x30020\<rparr>],
             arena_backing = [0x10000, 0x20000, 0x40000]\<rparr> = Some (Inr s0) \<and>
          arena_blocks s0 = NULL \<and>
          (\<exists>s'. arena_alloc s0 1001 1 = Inr (NULL, s') \<and>
                arena_blocks s' = 0x20000 \<and> arena_backing s' = [0x40000])) \<and>
   (\<exists>s'. arena_alloc
      \<lparr>arena_blocks = 0x10000,
       arena_heap = [0x10000 \<mapsto> \<lparr>blk_next = NULL, blk_buffer_end = 0x10400, blk_head = 0x10018\<rparr>],
       arena_backing = [0x20000, 0x40000]\<rparr> 1001 1 = Inr (NULL, s') \<and>
       arena_blocks s' = 0x20000 \<and> arena_backing s' = [0x40000]) \<and>
   (\<exists>s'. arena_alloc
      \<lparr>arena_blocks = NULL, arena_heap = Map.empty, arena_backing = [NULL, 0x10000]\<rparr> 1001 1
        = Inr (NULL, s') \<and>
       arena_blocks s' = NULL \<and> arena_backing s' = [0x10000])"
proof -
  have p: "is_pow2 (1 :: size_t)"
    unfolding is_pow2_def by (rule bexI [of _ 0]) simp_all
  have n: "1000 < unat (1001 :: size_t)" "sane_size (1001 :: size_t)"
    by (simp_all add: sane_size_def)
  let ?e = "\<lparr>arena_blocks = NULL, arena_heap = Map.empty, arena_backing = [0x10000, 0x20000, 0x40000]\<rparr>"
  let ?s = "\<lparr>arena_blocks = 0x10000,
       arena_heap = [0x10000 \<mapsto> \<lparr>blk_next = NULL, blk_buffer_end = 0x10400, blk_head = 0x10018\<rparr>],
       arena_backing = [0x20000, 0x40000]\<rparr>"
  let ?r = "\<lparr>arena_blocks = NULL, arena_heap = Map.empty, arena_backing = [NULL, 0x10000]\<rparr>"
  have c: "arena_clear
            \<lparr>arena_blocks = 0x30000,
             arena_heap = [0x30000 \<mapsto> \<lparr>blk_next = NULL, blk_buffer_end = 0x30400, blk_head = 0x30020\<rparr>],
             arena_backing = [0x10000, 0x20000, 0x40000]\<rparr> = Some (Inr ?e)"
    by (simp add: arena_clear_def arena_clear_loop.simps free_def)
  have e: "arena_wf ?e" "backing_serves ?e" "arena_blocks ?e = NULL"
    "fst (malloc ?e ARENA_BLOCK_SIZE) \<noteq> NULL"
    by (simp_all add: arena_wf_def backing_serves_def block_addr_ok_def malloc_def)
  have s: "arena_wf ?s" "backing_serves ?s" "arena_blocks ?s \<noteq> NULL"
    by (simp_all add: arena_wf_def backing_serves_def block_wf_def block_addr_ok_def
        ARENA_BLOCK_SIZE_def)
  have r: "arena_wf ?r" "backing_serves ?r" "arena_blocks ?r = NULL"
    "fst (malloc ?r ARENA_BLOCK_SIZE) = NULL"
    by (simp_all add: arena_wf_def backing_serves_def malloc_def)
  from arena_oversize_rejected [OF e(1) p n e(2)] e(3,4)
  have 1: "\<exists>s'. arena_alloc ?e 1001 1 = Inr (NULL, s') \<and>
                arena_blocks s' = 0x20000 \<and> arena_backing s' = [0x40000]"
    by auto
  from arena_oversize_rejected [OF s(1) p n s(2)] s(3)
  have 2: "\<exists>s'. arena_alloc ?s 1001 1 = Inr (NULL, s') \<and>
       arena_blocks s' = 0x20000 \<and> arena_backing s' = [0x40000]"
    by auto
  from arena_oversize_rejected [OF r(1) p n r(2)] r(3,4)
  have 3: "\<exists>s'. arena_alloc ?r 1001 1 = Inr (NULL, s') \<and>
       arena_blocks s' = NULL \<and> arena_backing s' = [0x10000]"
    by auto
  from c 1 have "\<exists>s0. arena_clear
            \<lparr>arena_blocks = 0x30000,
             arena_heap = [0x30000 \<mapsto> \<lparr>blk_next = NULL, blk_buffer_end = 0x30400, blk_head = 0x30020\<rparr>],
             arena_backing = [0x10000, 0x20000, 0x40000]\<rparr> = Some (Inr s0) \<and>
          arena_blocks s0 = NULL \<and>
          (\<exists>s'. arena_alloc s0 1001 1 = Inr (NULL, s') \<and>
                arena_blocks s' = 0x20000 \<and> arena_backing s' = [0x40000])"
    by (intro exI [of _ ?e]) simp
  with 2 3 show ?thesis by blast
qed

text \<open>
  The claim as the spec words it, for every size above the usable capacity, fails where
  the address computation wraps around: on the empty arena a request of
  \<open>2 ^ 64 - 1\<close> bytes passes the room test of the first block, whose head moves
  back by one byte, and a non-null pointer is returned.
\<close>

theorem arena_oversize_counterexample:
  "1000 < unat (0xFFFFFFFFFFFFFFFF :: size_t) \<and>
   (\<exists>s'. arena_alloc \<lparr>arena_blocks = NULL, arena_heap = Map.empty, arena_backing = [0x10000]\<rparr>
            0xFFFFFFFFFFFFFFFF 1 = Inr (0x10018, s') \<and>
          arena_blocks s' = 0x10000 \<and>
          arena_heap s' 0x10000 = Some \<lparr>blk_next = NULL, blk_buffer_end = 0x10400, blk_head = 0x10017\<rparr>)"
  by (simp add: arena_alloc_def arena_get_block_def arena_new_block_def malloc_def
        arena_block_init_def arena_block_alloc_def ALIGN_TO_def ARENA_BLOCK_SIZE_def
        ARENA_HEADER_SIZE_def)

section \<open>What a failed allocation leaves behind\<close>

text \<open>
  Claim C2, as the code has it. A failed \<open>fba_alloc_opt\<close> (on a well-formed
  allocator, with a power-of-two alignment) and a failed \<open>ba_alloc\<close> leave the
  allocator exactly as it was. A call of \<open>arena_alloc\<close> on an empty arena that fails
  because the backing allocator refuses the first block leaves the block list and the heap
  as they were. A failed \<open>allocate\<close> of the Linear allocator leaves the head advanced
  by the size.
\<close>

theorem failed_alloc_state:
  "(fba_wf f \<and> is_pow2 align \<and> fst (fba_alloc_opt f sz align) = NULL \<longrightarrow>
      snd (fba_alloc_opt f sz align) = f) \<and>
   (fst (ba_alloc ba) = NULL \<longrightarrow> snd (ba_alloc ba) = ba) \<and>
   (arena_blocks s = NULL \<and> fst (malloc s ARENA_BLOCK_SIZE) = NULL \<longrightarrow>
      (\<exists>s'. arena_alloc s sz align = Inr (NULL, s') \<and>
            arena_blocks s' = arena_blocks s \<and> arena_heap s' = arena_heap s)) \<and>
   (fst (allocate g n) = None \<longrightarrow> lin_head (snd (allocate g n)) = lin_head g + n)"
proof -
  have fba: "snd (fba_alloc_opt f sz align) = f"
    if wf: "fba_wf f" and al: "is_pow2 align" and fail: "fst (fba_alloc_opt f sz align) = NULL"
  proof -
    have h: "unat (fba_head f) \<le> 2 ^ 63"
      using wf by (simp add: fba_wf_def lower_half_def word_le_nat_alt)
    have "fba_head f \<noteq> NULL"
      using wf by (auto simp: fba_wf_def)
    then have "0 < unat (fba_head f)" by (simp add: unat_gt_0)
    with ALIGN_TO_bounds [OF al h] have "0 < unat (ALIGN_TO (fba_head f) align)"
      by linarith
    then have "ALIGN_TO (fba_head f) align \<noteq> NULL" by (simp add: unat_gt_0)
    with fail show ?thesis
      by (simp add: fba_alloc_opt_def Let_def split: if_splits)
  qed
  have ba: "fst (ba_alloc ba) = NULL \<longrightarrow> snd (ba_alloc ba) = ba"
    by (simp add: ba_alloc_def Let_def)
  have ar: "\<exists>s'. arena_alloc s sz align = Inr (NULL, s') \<and>
            arena_blocks s' = arena_blocks s \<and> arena_heap s' = arena_heap s"
    if "arena_blocks s = NULL" and "fst (malloc s ARENA_BLOCK_SIZE) = NULL"
    using that
    by (auto simp: arena_alloc_def arena_get_block_def arena_new_block_def malloc_def
        split: list.splits)
  have li: "fst (allocate g n) = None \<longrightarrow> lin_head (snd (allocate g n)) = lin_head g + n"
    by (simp add: allocate_def Let_def)
  show ?thesis
    using fba ba ar li by blast
qed

theorem failed_alloc_state_witness:
  "fst (fba_alloc_opt \<lparr>fba_buffer = 0x1000, fba_buffer_end = 0x1400, fba_head = 0x13FD\<rparr> 8 4) = NULL \<and>
   snd (fba_alloc_opt \<lparr>fba_buffer = 0x1000, fba_buffer_end = 0x1400, fba_head = 0x13FD\<rparr> 8 4)
     = \<lparr>fba_buffer = 0x1000, fba_buffer_end = 0x1400, fba_head = 0x13FD\<rparr> \<and>
   ba_alloc \<lparr>ba_buffer = 0x1000, ba_buffer_end = 0x2000, ba_blocks = NULL, ba_mem = \<lambda>_. 0\<rparr>
     = (NULL, \<lparr>ba_buffer = 0x1000, ba_buffer_end = 0x2000, ba_blocks = NULL, ba_mem = \<lambda>_. 0\<rparr>) \<and>
   (\<exists>s'. arena_alloc \<lparr>arena_blocks = NULL, arena_heap = Map.empty, arena_backing = [NULL]\<rparr> 8 4
           = Inr (NULL, s') \<and> arena_blocks s' = NULL \<and> arena_heap s' = Map.empty) \<and>
   fst (allocate \<lparr>lin_head = 1000\<rparr> 100) = None \<and>
   lin_head (snd (allocate \<lparr>lin_head = 1000\<rparr> 100)) = 1100"
proof -
  let ?f = "\<lparr>fba_buffer = 0x1000, fba_buffer_end = 0x1400, fba_head = 0x13FD\<rparr>"
  let ?b = "\<lparr>ba_buffer = 0x1000, ba_buffer_end = 0x2000, ba_blocks = NULL, ba_mem = \<lambda>_. 0\<rparr>"
  let ?s = "\<lparr>arena_blocks = NULL, arena_heap = Map.empty, arena_backing = [NULL]\<rparr>"
  have p: "is_pow2 (4 :: size_t)"
    unfolding is_pow2_def by (rule bexI [of _ 2]) simp_all
  have h: "fba_wf ?f" "fst (fba_alloc_opt ?f 8 4) = NULL" "fst (ba_alloc ?b) = NULL"
    "arena_blocks ?s = NULL" "fst (malloc ?s ARENA_BLOCK_SIZE) = NULL"
    "fst (allocate \<lparr>lin_head = 1000\<rparr> 100) = None"
    by (simp_all add: fba_wf_def lower_half_def fba_alloc_opt_def ALIGN_TO_def ba_alloc_def
        malloc_def allocate_def BUFFER_SIZE_def)
  from failed_alloc_state [where f = ?f and align = 4 and sz = 8 and ba = ?b and s = ?s
      and g = "\<lparr>lin_head = 1000\<rparr>" and n = 100] p h
  show ?thesis
    by (auto simp: prod_eq_iff)
qed

text \<open>
  The claim as the spec words it, for all four allocators, fails for two of them. The
  Linear allocator with its head at 1000 refuses 100 bytes and leaves the head at 1100.
  The arena whose only block is empty refuses 1001 bytes and keeps the new block that it
  created for the retry.
\<close>

theorem failed_alloc_mutates_counterexample:
  "allocate \<lparr>lin_head = 1000\<rparr> 100 = (None, \<lparr>lin_head = 1100\<rparr>) \<and>
   arena_alloc
      \<lparr>arena_blocks = 0x10000,
       arena_heap = [0x10000 \<mapsto> \<lparr>blk_next = NULL, blk_buffer_end = 0x10400, blk_head = 0x10018\<rparr>],
       arena_backing = [0x20000]\<rparr> 1001 1
     = Inr (NULL,
         \<lparr>arena_blocks = 0x20000,
          arena_heap = [0x10000 \<mapsto> \<lparr>blk_next = NULL, blk_buffer_end = 0x10400, blk_head = 0x10018\<rparr>,
                        0x20000 \<mapsto> \<lparr>blk_next = 0x10000, blk_buffer_end = 0x20400, blk_head = 0x20018\<rparr>],
          arena_backing = []\<rparr>)"
  by (simp add: allocate_def BUFFER_SIZE_def arena_alloc_def arena_get_block_def
        arena_new_block_def malloc_def arena_block_init_def arena_block_alloc_def ALIGN_TO_def
        ARENA_BLOCK_SIZE_def ARENA_HEADER_SIZE_def)

section \<open>Block allocator: the free list\<close>

lemma apart_sym: "apart a b \<longleftrightarrow> apart b a"
  by (auto simp: apart_def)

lemma chain_store:
  "chain m p xs \<Longrightarrow> \<forall>x \<in> set xs. apart a x \<Longrightarrow> chain (store_ptr m a v) p xs"
  by (induction xs arbitrary: p) (simp_all add: load_store_apart)

lemma chain_memset:
  "chain m p xs \<Longrightarrow> \<forall>x \<in> set xs. apart a x \<Longrightarrow> chain (memset m a c 8) p xs"
  by (induction xs arbitrary: p) (simp_all add: load_memset_apart)

lemma ba_allocs_chain:
  "chain (ba_mem ba) (ba_blocks ba) xs \<Longrightarrow> sorted_wrt apart xs \<Longrightarrow>
     fst (ba_allocs (length xs) ba) = xs \<and> ba_blocks (snd (ba_allocs (length xs) ba)) = NULL"
proof (induction xs arbitrary: ba)
  case Nil
  then show ?case by simp
next
  case (Cons x xs)
  let ?ba1 = "snd (ba_alloc ba)"
  from Cons.prems have x: "ba_blocks ba = x" "x \<noteq> NULL"
    and rest: "chain (ba_mem ba) (load_ptr (ba_mem ba) x) xs"
    and ap: "\<forall>y \<in> set xs. apart x y" and sw: "sorted_wrt apart xs"
    by simp_all
  have a: "ba_alloc ba = (x, ?ba1)"
    and b: "ba_blocks ?ba1 = load_ptr (ba_mem ba) x"
    and m: "ba_mem ?ba1 = memset (ba_mem ba) x 0 8"
    using x by (simp_all add: ba_alloc_def Let_def)
  have "chain (ba_mem ?ba1) (ba_blocks ?ba1) xs"
    unfolding b m using rest ap by (rule chain_memset)
  moreover have "fst (ba_alloc ba) = x"
    using x by (simp add: ba_alloc_def Let_def)
  ultimately show ?case
    using Cons.IH [OF _ sw, of ?ba1] by (simp add: split_beta)
qed

lemma item_addr_unat:
  assumes sz: "8 \<le> unat item_size" and fit: "unat buffer + K * unat item_size < 2 ^ 64"
    and j: "j < K"
  shows "unat (item_addr buffer item_size j) = unat buffer + j * unat item_size"
proof -
  have le: "j * unat item_size \<le> K * unat item_size"
    using j by (intro mult_le_mono1) simp
  have "j * 1 \<le> j * unat item_size"
    by (rule mult_le_mono2) (use sz in linarith)
  then have "j \<le> j * unat item_size" by simp
  with le fit have jl: "j < 2 ^ 64" by linarith
  then have uj: "unat (of_nat j :: size_t) = j"
    by (simp add: unat_of_nat)
  have jm: "j * unat item_size < 2 ^ 64"
    using le fit by linarith
  then have "unat (of_nat j :: size_t) * unat item_size < 2 ^ LENGTH(64)"
    using uj by simp
  then have "unat (of_nat j * item_size) = unat (of_nat j :: size_t) * unat item_size"
    by (rule unat_mult_lem [THEN iffD1])
  then have um: "unat (of_nat j * item_size) = j * unat item_size"
    by (simp only: uj)
  have "unat buffer + j * unat item_size < 2 ^ 64"
    using le fit by linarith
  then have "unat buffer + unat (of_nat j * item_size) < 2 ^ LENGTH(64)"
    using um by simp
  then have "unat (buffer + of_nat j * item_size) = unat buffer + unat (of_nat j * item_size)"
    by (rule unat_add_lem [THEN iffD1])
  then show ?thesis
    unfolding item_addr_def by (simp only: um)
qed

lemma item_addr_apart:
  assumes sz: "8 \<le> unat item_size" and fit: "unat buffer + K * unat item_size < 2 ^ 64"
    and i: "i < j" and j: "j < K"
  shows "apart (item_addr buffer item_size i) (item_addr buffer item_size j)"
proof -
  have ui: "unat (item_addr buffer item_size i) = unat buffer + i * unat item_size"
    using item_addr_unat [OF sz fit] i j by simp
  have uj: "unat (item_addr buffer item_size j) = unat buffer + j * unat item_size"
    using item_addr_unat [OF sz fit j] .
  have "(i + 1) * unat item_size \<le> j * unat item_size"
    using i by (intro mult_le_mono1) simp
  then have a: "i * unat item_size + unat item_size \<le> j * unat item_size"
    by (simp add: algebra_simps)
  have "(j + 1) * unat item_size \<le> K * unat item_size"
    using j by (intro mult_le_mono1) simp
  then have b: "j * unat item_size + unat item_size \<le> K * unat item_size"
    by (simp add: algebra_simps)
  show ?thesis
    unfolding apart_nat ui uj using a b sz fit by linarith
qed

lemma item_addr_nonnull:
  assumes sz: "8 \<le> unat item_size" and fit: "unat buffer + K * unat item_size < 2 ^ 64"
    and nn: "buffer \<noteq> NULL" and j: "j < K"
  shows "item_addr buffer item_size j \<noteq> NULL"
proof -
  have "0 < unat buffer" using nn by (simp add: unat_gt_0)
  then have "0 < unat (item_addr buffer item_size j)"
    using item_addr_unat [OF sz fit j] by simp
  then show ?thesis by (simp add: unat_gt_0)
qed

lemma items_apart:
  assumes sz: "8 \<le> unat item_size" and fit: "unat buffer + K * unat item_size < 2 ^ 64"
  shows "sorted_wrt apart (rev (map (item_addr buffer item_size) [0..<K]))"
proof -
  have "sorted_wrt (\<lambda>x y. apart y x) (map (item_addr buffer item_size) [0..<K])"
    unfolding sorted_wrt_map sorted_wrt_iff_nth_less
    using item_addr_apart [OF sz fit] by (simp add: apart_sym)
  then show ?thesis
    by (simp add: sorted_wrt_rev)
qed

lemma ba_init_loop_chain:
  assumes sz: "8 \<le> unat item_size"
    and fit: "unat buffer + unat item_count * unat item_size < 2 ^ 64"
    and nn: "buffer \<noteq> NULL"
    and i: "unat i \<le> unat item_count"
    and ch: "chain m prev (rev (map (item_addr buffer item_size) [0..<unat i]))"
  shows "chain (snd (ba_init_loop buffer item_size item_count i prev m))
           (fst (ba_init_loop buffer item_size item_count i prev m))
           (rev (map (item_addr buffer item_size) [0..<unat item_count]))"
  using assms
proof (induction buffer item_size item_count i prev m rule: ba_init_loop.induct)
  case (1 buffer item_size item_count i prev m)
  show ?case
  proof (cases "i < item_count")
    case False
    then have "unat i = unat item_count"
      using "1.prems"(4) by (simp add: word_less_nat_alt)
    with False "1.prems"(5) show ?thesis
      by (subst (1 2) ba_init_loop.simps) simp
  next
    case True
    let ?b = "buffer + i * item_size"
    have lt: "unat i < unat item_count"
      using True by (simp add: word_less_nat_alt)
    moreover have "unat item_count < 2 ^ 64"
      using unsigned_less [of item_count] by simp
    ultimately have suc: "unat (i + 1) = Suc (unat i)"
      by (simp add: unat_word_ariths)
    have b: "?b = item_addr buffer item_size (unat i)"
      by (simp add: item_addr_def)
    have b0: "?b \<noteq> NULL"
      unfolding b using item_addr_nonnull [OF "1.prems"(1,2,3) lt] .
    have ap: "\<forall>x \<in> set (rev (map (item_addr buffer item_size) [0..<unat i])). apart ?b x"
      unfolding b using item_addr_apart [OF "1.prems"(1,2) _ lt]
      by (auto simp: apart_sym)
    have "chain (store_ptr m ?b prev) ?b (?b # rev (map (item_addr buffer item_size) [0..<unat i]))"
      using b0 chain_store [OF "1.prems"(5) ap] by (simp add: load_store_same)
    then have ch': "chain (store_ptr m ?b prev) ?b
        (rev (map (item_addr buffer item_size) [0..<unat (i + 1)]))"
      unfolding suc by (simp add: b)
    have le': "unat (i + 1) \<le> unat item_count"
      using lt suc by simp
    have "ba_init_loop buffer item_size item_count i prev m =
        ba_init_loop buffer item_size item_count (i + 1) ?b (store_ptr m ?b prev)"
      using True by (subst ba_init_loop.simps) (simp add: Let_def)
    with "1.IH" [OF True refl "1.prems"(1,2,3) le' ch']
    show ?thesis
      by simp
  qed
qed


lemma ba_init_chain:
  assumes sz: "8 \<le> item_size" and nn: "buffer \<noteq> NULL"
    and fit: "unat buffer + unat buffer_size < 2 ^ 64"
  shows "\<exists>ba. ba_init m buffer buffer_size item_size = Some ba \<and>
           ba_buffer ba = buffer \<and> ba_buffer_end ba = buffer + buffer_size \<and>
           chain (ba_mem ba) (ba_blocks ba)
             (rev (map (item_addr buffer item_size) [0..<unat buffer_size div unat item_size]))"
proof -
  let ?cnt = "buffer_size div item_size"
  have cnt: "unat ?cnt = unat buffer_size div unat item_size"
    by (rule unat_div)
  have sz': "8 \<le> unat item_size"
    using sz by (simp add: word_le_nat_alt)
  have "unat ?cnt * unat item_size \<le> unat buffer_size"
    unfolding cnt by (rule div_times_less_eq_dividend)
  with fit have fit': "unat buffer + unat ?cnt * unat item_size < 2 ^ 64"
    by linarith
  have "chain (snd (ba_init_loop buffer item_size ?cnt 0 NULL m))
           (fst (ba_init_loop buffer item_size ?cnt 0 NULL m))
           (rev (map (item_addr buffer item_size) [0..<unat ?cnt]))"
    by (rule ba_init_loop_chain [OF sz' fit' nn]) simp_all
  then show ?thesis
    using sz by (simp add: ba_init_def Let_def split_beta cnt)
qed

text \<open>
  Claim C5. Over a buffer that does not start at the null address and lies within the
  address space, with items that can hold a link, \<open>ba_init\<close> succeeds, and with
  \<open>K = buffer_size div item_size\<close> (which is \<open>K\<close> when
  \<open>buffer_size = item_size * K\<close>) the first \<open>K\<close> calls of \<open>ba_alloc\<close> return the
  items \<open>K - 1\<close> down to 0, none of them null and each inside the first
  \<open>K * item_size\<close> bytes of the buffer, so that the trailing remainder is never handed
  out; the next call returns \<open>NULL\<close>.
\<close>

theorem ba_capacity:
  assumes sz: "8 \<le> item_size" and nn: "buffer \<noteq> NULL"
    and fit: "unat buffer + unat buffer_size < 2 ^ 64"
  shows "\<exists>ba. ba_init m buffer buffer_size item_size = Some ba \<and>
     fst (ba_allocs (unat buffer_size div unat item_size) ba) =
       rev (map (item_addr buffer item_size) [0..<unat buffer_size div unat item_size]) \<and>
     NULL \<notin> set (fst (ba_allocs (unat buffer_size div unat item_size) ba)) \<and>
     (\<forall>p \<in> set (fst (ba_allocs (unat buffer_size div unat item_size) ba)).
        unat buffer \<le> unat p \<and>
        unat p + unat item_size \<le> unat buffer + unat buffer_size div unat item_size * unat item_size) \<and>
     fst (ba_alloc (snd (ba_allocs (unat buffer_size div unat item_size) ba))) = NULL"
proof -
  let ?K = "unat buffer_size div unat item_size"
  let ?xs = "rev (map (item_addr buffer item_size) [0..<?K])"
  have sz': "8 \<le> unat item_size"
    using sz by (simp add: word_le_nat_alt)
  have "?K * unat item_size \<le> unat buffer_size"
    by (rule div_times_less_eq_dividend)
  with fit have fit': "unat buffer + ?K * unat item_size < 2 ^ 64"
    by linarith
  from ba_init_chain [OF sz nn fit] obtain ba
    where init: "ba_init m buffer buffer_size item_size = Some ba"
      and ch: "chain (ba_mem ba) (ba_blocks ba) ?xs"
    by blast
  have len: "length ?xs = ?K" by simp
  from ba_allocs_chain [OF ch items_apart [OF sz' fit']]
  have res: "fst (ba_allocs ?K ba) = ?xs" and emp: "ba_blocks (snd (ba_allocs ?K ba)) = NULL"
    unfolding len by simp_all
  have nonnull: "NULL \<notin> set ?xs"
    using item_addr_nonnull [OF sz' fit' nn] by auto
  have inside: "unat buffer \<le> unat p \<and> unat p + unat item_size \<le> unat buffer + ?K * unat item_size"
    if "p \<in> set ?xs" for p
  proof -
    from that obtain j where j: "j < ?K" and p: "p = item_addr buffer item_size j"
      by auto
    have "(j + 1) * unat item_size \<le> ?K * unat item_size"
      using j by (intro mult_le_mono1) simp
    then have "j * unat item_size + unat item_size \<le> ?K * unat item_size"
      by (simp add: algebra_simps)
    then show ?thesis
      unfolding p item_addr_unat [OF sz' fit' j] by linarith
  qed
  have last: "fst (ba_alloc (snd (ba_allocs ?K ba))) = NULL"
    using emp by (simp add: ba_alloc_def)
  show ?thesis
    using init res nonnull inside last by (intro exI [of _ ba]) simp
qed

theorem ba_capacity_witness:
  "\<exists>ba. ba_init (\<lambda>_. 0) 0x1000 4096 36 = Some ba \<and>
     length (fst (ba_allocs 113 ba)) = 113 \<and>
     NULL \<notin> set (fst (ba_allocs 113 ba)) \<and>
     fst (ba_alloc (snd (ba_allocs 113 ba))) = NULL"
proof -
  have h: "(8 :: size_t) \<le> 36" "(0x1000 :: addr) \<noteq> NULL"
    "unat (0x1000 :: addr) + unat (4096 :: size_t) < 2 ^ 64"
    by simp_all
  have k: "unat (4096 :: size_t) div unat (36 :: size_t) = 113"
    by simp
  from ba_capacity [OF h, of "\<lambda>_. 0"] obtain ba
    where "ba_init (\<lambda>_. 0) 0x1000 4096 36 = Some ba"
      and "fst (ba_allocs 113 ba) = rev (map (item_addr 0x1000 36) [0..<113])"
      and "NULL \<notin> set (fst (ba_allocs 113 ba))"
      and "fst (ba_alloc (snd (ba_allocs 113 ba))) = NULL"
    unfolding k by blast
  then show ?thesis
    by (intro exI [of _ ba]) simp
qed

text \<open>
  Claim C6. From a state whose first free item lies in the buffer, as in every state
  that satisfies the invariant \<open>ba_inv\<close>: when two calls of
  \<open>ba_alloc\<close> have returned \<open>A\<close> and \<open>B\<close> and \<open>A\<close> is freed, the next
  \<open>ba_alloc\<close> returns \<open>A\<close> again and leaves the free list as it was after the
  allocation of \<open>B\<close>. The witness is the scenario of the spec: a buffer of 4096 bytes with
  36-byte items, where \<open>item0\<close> is the item 112 and \<open>item1\<close> the item 111.
\<close>

theorem ba_lifo:
  assumes a: "ba_alloc s = (A, s1)" and an: "A \<noteq> NULL"
    and b: "ba_alloc s1 = (B, s2)" and bn: "B \<noteq> NULL"
    and lo: "ba_buffer s \<le> A" and hi: "A \<le> ba_buffer_end s"
  shows "fst (ba_alloc (ba_free s2 A)) = A \<and>
         ba_blocks (snd (ba_alloc (ba_free s2 A))) = ba_blocks s2"
proof -
  have "ba_buffer s1 = ba_buffer s" "ba_buffer_end s1 = ba_buffer_end s"
    using a by (auto simp: ba_alloc_def Let_def split: if_splits)
  moreover have "ba_buffer s2 = ba_buffer s1" "ba_buffer_end s2 = ba_buffer_end s1"
    using b by (auto simp: ba_alloc_def Let_def split: if_splits)
  ultimately have "\<not> (A < ba_buffer s2 \<or> A > ba_buffer_end s2)"
    using lo hi by (simp add: not_less)
  then have fr: "ba_free s2 A = s2\<lparr>ba_mem := store_ptr (ba_mem s2) A (ba_blocks s2), ba_blocks := A\<rparr>"
    by (simp add: ba_free_def)
  show ?thesis
    unfolding fr using an by (simp add: ba_alloc_def Let_def load_store_same)
qed

theorem ba_lifo_witness:
  "\<exists>ba item0 ba1 item1 ba2.
     ba_init (\<lambda>_. 0) 0x1000 4096 36 = Some ba \<and>
     ba_alloc ba = (item0, ba1) \<and> item0 = 0x1FC0 \<and>
     ba_alloc ba1 = (item1, ba2) \<and> item1 = 0x1F9C \<and>
     fst (ba_alloc (ba_free ba2 item0)) = item0"
proof -
  have h: "(8 :: size_t) \<le> 36" "(0x1000 :: addr) \<noteq> NULL"
    "unat (0x1000 :: addr) + unat (4096 :: size_t) < 2 ^ 64"
    by simp_all
  have k: "unat (4096 :: size_t) div unat (36 :: size_t) = 113"
    by simp
  have "[0..<113] = [0..<111] @ [111..<111 + 2]"
    using upt_add_eq_append [of 0 111 2] by simp
  then have l: "rev (map (item_addr 0x1000 36) [0..<113]) =
      0x1FC0 # 0x1F9C # rev (map (item_addr 0x1000 36) [0..<111])"
    by (simp add: item_addr_def upt_rec)
  from ba_init_chain [OF h, of "\<lambda>_. 0"] obtain ba
    where init: "ba_init (\<lambda>_. 0) 0x1000 4096 36 = Some ba"
      and bf: "ba_buffer ba = 0x1000" "ba_buffer_end ba = 0x1000 + 4096"
      and ch: "chain (ba_mem ba) (ba_blocks ba)
                 (0x1FC0 # 0x1F9C # rev (map (item_addr 0x1000 36) [0..<111]))"
    unfolding k l by blast
  obtain ba1 where a: "ba_alloc ba = (0x1FC0, ba1)"
    using ch by (simp add: ba_alloc_def Let_def)
  have b1: "ba_blocks ba1 = 0x1F9C"
    using ch a by (auto simp: ba_alloc_def Let_def split: if_splits)
  obtain ba2 where b: "ba_alloc ba1 = (0x1F9C, ba2)"
    using b1 by (simp add: ba_alloc_def Let_def)
  have "fst (ba_alloc (ba_free ba2 0x1FC0)) = 0x1FC0"
    using ba_lifo [OF a _ b] bf by simp
  with init a b show ?thesis by blast
qed

section \<open>Order of the returned pointers\<close>

lemma precedes_consequences:
  assumes "precedes (p, n) (p', n')"
  shows "unat p \<le> unat p'" and "0 < unat n \<Longrightarrow> unat p < unat p'"
    and "\<And>a. unat p \<le> a \<Longrightarrow> a < unat p + unat n \<Longrightarrow> \<not> (unat p' \<le> a \<and> a < unat p' + unat n')"
  using assms by (simp_all add: precedes_def)

lemma fba_alloc_opt_step:
  assumes wf: "fba_wf f" and sz: "sane_size sz" and al: "is_pow2 align"
    and ok: "fst (fba_alloc_opt f sz align) \<noteq> NULL"
  shows "fba_wf (snd (fba_alloc_opt f sz align))"
    and "unat (fba_head f) \<le> unat (fst (fba_alloc_opt f sz align))"
    and "unat (fst (fba_alloc_opt f sz align)) + unat sz = unat (fba_head (snd (fba_alloc_opt f sz align)))"
proof -
  let ?h = "ALIGN_TO (fba_head f) align"
  have e: "unat (fba_buffer_end f) \<le> 2 ^ 63" and he: "unat (fba_head f) \<le> unat (fba_buffer_end f)"
    and bh: "unat (fba_buffer f) \<le> unat (fba_head f)" and b0: "fba_buffer f \<noteq> NULL"
    using wf by (simp_all add: fba_wf_def lower_half_def word_le_nat_alt)
  have h: "unat (fba_head f) \<le> 2 ^ 63" using e he by linarith
  have lo: "unat (fba_head f) \<le> unat ?h" and top: "unat ?h \<le> 2 ^ 63"
    using ALIGN_TO_bounds [OF al h] by simp_all
  have "unat ?h + unat sz < 2 ^ 64"
    using top sz by (simp add: sane_size_def)
  then have sum: "unat (?h + sz) = unat ?h + unat sz"
    by (simp add: unat_word_ariths)
  have fit: "\<not> (?h + sz > fba_buffer_end f)"
    using ok by (auto simp: fba_alloc_opt_def Let_def split: if_splits)
  then have fit': "unat ?h + unat sz \<le> unat (fba_buffer_end f)"
    by (simp add: word_less_nat_alt sum)
  have r: "fba_alloc_opt f sz align = (?h, f\<lparr>fba_head := ?h + sz\<rparr>)"
    using fit by (simp add: fba_alloc_opt_def Let_def)
  show "fba_wf (snd (fba_alloc_opt f sz align))"
    using b0 bh lo fit' e unfolding r
    by (simp add: fba_wf_def lower_half_def word_le_nat_alt sum)
  show "unat (fba_head f) \<le> unat (fst (fba_alloc_opt f sz align))"
    unfolding r using lo by simp
  show "unat (fst (fba_alloc_opt f sz align)) + unat sz = unat (fba_head (snd (fba_alloc_opt f sz align)))"
    unfolding r using sum by simp
qed

lemma fba_allocs_above:
  "fba_wf f \<Longrightarrow> \<forall>(sz, al) \<in> set rs. sane_size sz \<and> is_pow2 al \<Longrightarrow>
   \<forall>(p, n) \<in> set (fst (fba_allocs f rs)). p \<noteq> NULL \<Longrightarrow>
   (\<forall>(p, n) \<in> set (fst (fba_allocs f rs)). unat (fba_head f) \<le> unat p) \<and>
   sorted_wrt precedes (fst (fba_allocs f rs))"
proof (induction rs arbitrary: f)
  case Nil
  then show ?case by simp
next
  case (Cons r rs)
  obtain sz al where r: "r = (sz, al)" by (cases r)
  let ?p = "fst (fba_alloc_opt f sz al)" and ?f1 = "snd (fba_alloc_opt f sz al)"
  have res: "fst (fba_allocs f (r # rs)) = (?p, sz) # fst (fba_allocs ?f1 rs)"
    by (simp add: r split_beta)
  have req: "sane_size sz" "is_pow2 al" and reqs: "\<forall>(sz, al) \<in> set rs. sane_size sz \<and> is_pow2 al"
    using Cons.prems(2) by (simp_all add: r)
  have ok: "?p \<noteq> NULL" and oks: "\<forall>(p, n) \<in> set (fst (fba_allocs ?f1 rs)). p \<noteq> NULL"
    using Cons.prems(3) unfolding res by simp_all
  note st = fba_alloc_opt_step [OF Cons.prems(1) req ok]
  from Cons.IH [OF st(1) reqs oks]
  have above: "\<forall>(p, n) \<in> set (fst (fba_allocs ?f1 rs)). unat (fba_head ?f1) \<le> unat p"
    and sorted: "sorted_wrt precedes (fst (fba_allocs ?f1 rs))"
    by simp_all
  have "\<forall>y \<in> set (fst (fba_allocs ?f1 rs)). precedes (?p, sz) y"
    using above st(3) by (auto simp: precedes_def)
  moreover have "\<forall>(p, n) \<in> set (fst (fba_allocs ?f1 rs)). unat (fba_head f) \<le> unat p"
    using above st(2,3) by fastforce
  ultimately show ?case
    unfolding res using sorted st(2) by simp
qed

lemma allocate_step:
  assumes h: "unat (lin_head g) < 2 ^ 63" and sz: "sane_size n"
    and ok: "fst (allocate g n) \<noteq> None"
  shows "fst (allocate g n) = Some (lin_head g)"
    and "unat (lin_head (snd (allocate g n))) = unat (lin_head g) + unat n"
    and "unat (lin_head (snd (allocate g n))) < 2 ^ 63"
proof -
  have "unat (lin_head g) + unat n < 2 ^ 64"
    using h sz by (simp add: sane_size_def)
  then have sum: "unat (lin_head g + n) = unat (lin_head g) + unat n"
    by (simp add: unat_word_ariths)
  have fit: "\<not> (lin_head g + n > BUFFER_SIZE)"
    using ok by (auto simp: allocate_def Let_def split: if_splits)
  then have "unat (lin_head g + n) \<le> 1024"
    by (simp add: BUFFER_SIZE_def word_less_nat_alt)
  then show "unat (lin_head (snd (allocate g n))) < 2 ^ 63"
    by (simp add: allocate_def Let_def)
  show "fst (allocate g n) = Some (lin_head g)"
    using fit by (simp add: allocate_def Let_def)
  show "unat (lin_head (snd (allocate g n))) = unat (lin_head g) + unat n"
    using sum by (simp add: allocate_def Let_def)
qed

lemma allocates_above:
  "unat (lin_head g) < 2 ^ 63 \<Longrightarrow> \<forall>n \<in> set ns. sane_size n \<Longrightarrow>
   \<forall>(q, n) \<in> set (fst (allocates g ns)). q \<noteq> None \<Longrightarrow>
   (\<forall>(q, n) \<in> set (fst (allocates g ns)). unat (lin_head g) \<le> unat (the q)) \<and>
   sorted_wrt precedes (map (\<lambda>(q, n). (the q, n)) (fst (allocates g ns)))"
proof (induction ns arbitrary: g)
  case Nil
  then show ?case by simp
next
  case (Cons n ns)
  let ?q = "fst (allocate g n)" and ?g1 = "snd (allocate g n)"
  have res: "fst (allocates g (n # ns)) = (?q, n) # fst (allocates ?g1 ns)"
    by (simp add: split_beta)
  have req: "sane_size n" and reqs: "\<forall>n \<in> set ns. sane_size n"
    using Cons.prems(2) by simp_all
  have ok: "?q \<noteq> None" and oks: "\<forall>(q, n) \<in> set (fst (allocates ?g1 ns)). q \<noteq> None"
    using Cons.prems(3) unfolding res by simp_all
  note st = allocate_step [OF Cons.prems(1) req ok]
  from Cons.IH [OF st(3) reqs oks]
  have above: "\<forall>(q, n) \<in> set (fst (allocates ?g1 ns)). unat (lin_head ?g1) \<le> unat (the q)"
    and sorted: "sorted_wrt precedes (map (\<lambda>(q, n). (the q, n)) (fst (allocates ?g1 ns)))"
    by simp_all
  have "\<forall>y \<in> set (fst (allocates ?g1 ns)). precedes (lin_head g, n) (case y of (q, n) \<Rightarrow> (the q, n))"
    using above st(2) by (auto simp: precedes_def)
  moreover have "\<forall>(q, n) \<in> set (fst (allocates ?g1 ns)). unat (lin_head g) \<le> unat (the q)"
    using above st(2) by fastforce
  ultimately show ?case
    unfolding res using sorted st(1) by simp
qed


text \<open>One attempt on a well-formed block that is the first of the list.\<close>

lemma attempt_top:
  assumes b: "arena_blocks s = b" and wf: "block_wf b blk" and hp: "arena_heap s b = Some blk"
    and al: "is_pow2 al" and sz: "sane_size sz"
  shows "arena_block_alloc s b sz al = Inr (NULL, s) \<or>
    (\<exists>p s'. arena_block_alloc s b sz al = Inr (p, s') \<and> p \<noteq> NULL \<and>
       arena_wf s' \<and> arena_blocks s' = b \<and> arena_backing s' = arena_backing s \<and>
       unat (blk_head blk) \<le> unat p \<and> unat p + unat sz = top_head s' \<and>
       top_head s' \<le> unat b + 1024)"
proof (cases "unat b + 1024 < unat (ALIGN_TO (blk_head blk) al) + unat sz")
  case True
  then show ?thesis
    by (simp add: arena_block_alloc_nat(2) [OF wf hp al sz])
next
  case False
  let ?p = "ALIGN_TO (blk_head blk) al"
  let ?s' = "s\<lparr>arena_heap := (arena_heap s)(b \<mapsto> blk\<lparr>blk_head := ?p + sz\<rparr>)\<rparr>"
  note sum = arena_block_alloc_nat(1) [OF wf hp al sz]
  have r: "arena_block_alloc s b sz al = Inr (?p, ?s')"
    using False by (simp add: arena_block_alloc_nat(2) [OF wf hp al sz])
  have lo: "unat (blk_head blk) \<le> unat ?p" and nz: "?p \<noteq> NULL"
    using aligned_head [OF wf al] by simp_all
  have "block_wf b (blk\<lparr>blk_head := ?p + sz\<rparr>)"
    using wf lo False by (simp add: block_wf_def sum)
  then have "arena_wf ?s'"
    using b by (simp add: arena_wf_def)
  moreover have "top_head ?s' = unat ?p + unat sz"
    using b by (simp add: top_head_def sum)
  ultimately show ?thesis
    using r nz lo b False by simp
qed

text \<open>A successful call on a non-empty arena.\<close>

lemma arena_alloc_step_top:
  assumes rd: "arena_ready s" and ne: "arena_blocks s \<noteq> NULL"
    and al: "is_pow2 al" and sz: "sane_size sz"
    and res: "arena_alloc s sz al = Inr (p, s')" and ok: "p \<noteq> NULL"
  shows "arena_ready s' \<and> within s (arena_blocks s', p, sz) \<and>
         arena_blocks s' \<noteq> NULL \<and> unat p + unat sz = top_head s' \<and>
         set (arena_backing s') \<subseteq> set (arena_backing s) \<and>
         (arena_blocks s' = arena_blocks s \<and> top_head s \<le> unat p \<or>
          arena_blocks s' \<in> set (arena_backing s))"
proof -
  let ?b = "arena_blocks s"
  from rd ne obtain blk where hp: "arena_heap s ?b = Some blk" and bw: "block_wf ?b blk"
    by (auto simp: arena_ready_def arena_wf_def split: option.splits)
  have bko: "\<forall>q \<in> set (arena_backing s). block_addr_ok q"
    and sw: "sorted_wrt block_apart (?b # arena_backing s)"
    using rd ne by (simp_all add: arena_ready_def avail_def)
  have th: "top_head s = unat (blk_head blk)"
    using hp by (simp add: top_head_def)
  have b24: "unat ?b + 24 \<le> unat (blk_head blk)"
    using bw by (simp add: block_wf_def)
  have gb: "arena_get_block s = (?b, s)"
    using ne by (simp add: arena_get_block_def)
  from attempt_top [OF refl bw hp al sz]
  show ?thesis
  proof (elim disjE exE conjE)
    fix p1 s1
    assume a: "arena_block_alloc s ?b sz al = Inr (p1, s1)" "p1 \<noteq> NULL"
      and f: "arena_wf s1" "arena_blocks s1 = ?b" "arena_backing s1 = arena_backing s"
        "unat (blk_head blk) \<le> unat p1" "unat p1 + unat sz = top_head s1"
        "top_head s1 \<le> unat ?b + 1024"
    have "arena_alloc s sz al = Inr (p1, s1)"
      using ne a gb by (simp add: arena_alloc_def)
    with res have e: "p = p1" "s' = s1" by simp_all
    have "arena_ready s1"
      using f(1,2,3) bko sw ne by (simp add: arena_ready_def avail_def)
    moreover have "within s (?b, p1, sz)"
      using f(4,5,6) b24 ne th by (simp add: within_def)
    ultimately show ?thesis
      unfolding e using f ne th by simp
  next
    assume fail: "arena_block_alloc s ?b sz al = Inr (NULL, s)"
    show ?thesis
    proof (cases "arena_backing s")
      case Nil
      then have "arena_new_block s = (NULL, s)"
        by (simp add: arena_new_block_def malloc_def)
      then have "arena_alloc s sz al = Inl NullDeref"
        using ne fail gb by (simp add: arena_alloc_def arena_block_alloc_def)
      with res show ?thesis by simp
    next
      case (Cons q qs)
      have qok: "block_addr_ok q" using bko Cons by simp
      then have q0: "q \<noteq> NULL" by (simp add: block_addr_ok_def)
      let ?fresh = "\<lparr>blk_next = ?b, blk_buffer_end = q + ARENA_BLOCK_SIZE,
          blk_head = q + ARENA_HEADER_SIZE\<rparr>"
      let ?t = "s\<lparr>arena_blocks := q, arena_heap := (arena_heap s)(q \<mapsto> ?fresh),
          arena_backing := qs\<rparr>"
      have nb: "arena_new_block s = (q, ?t)"
        using arena_new_block_ok [OF Cons q0] .
      have second: "arena_alloc s sz al = arena_block_alloc ?t q sz al"
        using ne fail gb nb by (simp add: arena_alloc_def)
      have fw: "block_wf q ?fresh" using fresh_block_wf [OF qok] .
      have fh: "unat (blk_head ?fresh) = unat q + 24"
        using unat_block_end(2) [OF qok] by simp
      from attempt_top [OF _ fw _ al sz, of ?t]
      have "arena_block_alloc ?t q sz al = Inr (NULL, ?t) \<or>
        (\<exists>p2 s2. arena_block_alloc ?t q sz al = Inr (p2, s2) \<and> p2 \<noteq> NULL \<and>
           arena_wf s2 \<and> arena_blocks s2 = q \<and> arena_backing s2 = qs \<and>
           unat (blk_head ?fresh) \<le> unat p2 \<and> unat p2 + unat sz = top_head s2 \<and>
           top_head s2 \<le> unat q + 1024)"
        by simp
      then show ?thesis
      proof (elim disjE exE conjE)
        assume "arena_block_alloc ?t q sz al = Inr (NULL, ?t)"
        with second res ok show ?thesis by simp
      next
        fix p2 s2
        assume a: "arena_block_alloc ?t q sz al = Inr (p2, s2)" "p2 \<noteq> NULL"
          and f: "arena_wf s2" "arena_blocks s2 = q" "arena_backing s2 = qs"
            "unat (blk_head ?fresh) \<le> unat p2" "unat p2 + unat sz = top_head s2"
            "top_head s2 \<le> unat q + 1024"
        from second a res have e: "p = p2" "s' = s2" by simp_all
        have "sorted_wrt block_apart (q # qs)"
          using sw Cons by simp
        then have "arena_ready s2"
          using f(1,2,3) bko Cons q0 by (simp add: arena_ready_def avail_def)
        moreover have "within s (q, p2, sz)"
          using f(4,5,6) fh Cons by (simp add: within_def)
        ultimately show ?thesis
          unfolding e using f q0 Cons by auto
      qed
    qed
  qed
qed


text \<open>A successful call on any arena that is ready.\<close>

lemma arena_alloc_step:
  assumes rd: "arena_ready s" and al: "is_pow2 al" and sz: "sane_size sz"
    and res: "arena_alloc s sz al = Inr (p, s')" and ok: "p \<noteq> NULL"
  shows "arena_ready s' \<and> within s (arena_blocks s', p, sz) \<and>
         arena_blocks s' \<noteq> NULL \<and> unat p + unat sz = top_head s' \<and>
         set (arena_backing s') \<subseteq> set (arena_backing s)"
proof (cases "arena_blocks s = NULL")
  case False
  from arena_alloc_step_top [OF rd False al sz res ok] show ?thesis by simp
next
  case True
  have bko: "\<forall>q \<in> set (arena_backing s). block_addr_ok q"
    and sw: "sorted_wrt block_apart (arena_backing s)"
    using rd True by (simp_all add: arena_ready_def avail_def)
  show ?thesis
  proof (cases "arena_backing s")
    case Nil
    then have "arena_alloc s sz al = Inr (NULL, s)"
      using True by (simp add: arena_alloc_def arena_get_block_def arena_new_block_def malloc_def)
    with res ok show ?thesis by simp
  next
    case (Cons q qs)
    have qok: "block_addr_ok q" using bko Cons by simp
    then have q0: "q \<noteq> NULL" by (simp add: block_addr_ok_def)
    let ?fresh = "\<lparr>blk_next = arena_blocks s, blk_buffer_end = q + ARENA_BLOCK_SIZE,
        blk_head = q + ARENA_HEADER_SIZE\<rparr>"
    let ?t = "s\<lparr>arena_blocks := q, arena_heap := (arena_heap s)(q \<mapsto> ?fresh),
        arena_backing := qs\<rparr>"
    have nb: "arena_new_block s = (q, ?t)"
      using arena_new_block_ok [OF Cons q0] .
    have same: "arena_alloc s sz al = arena_alloc ?t sz al"
      using True q0 nb by (simp add: arena_alloc_def arena_get_block_def)
    have "arena_wf ?t"
      using fresh_block_wf [OF qok] by (simp add: arena_wf_def)
    then have rt: "arena_ready ?t"
      using bko sw Cons q0 by (simp add: arena_ready_def avail_def)
    have tne: "arena_blocks ?t \<noteq> NULL" using q0 by simp
    from arena_alloc_step_top [OF rt tne al sz res [unfolded same] ok]
    have c: "arena_ready s'" "within ?t (arena_blocks s', p, sz)" "arena_blocks s' \<noteq> NULL"
      "unat p + unat sz = top_head s'" "set (arena_backing s') \<subseteq> set qs"
      by simp_all
    have "within s (arena_blocks s', p, sz)"
      using c(2) Cons by (auto simp: within_def)
    then show ?thesis
      using c Cons by auto
  qed
qed

lemma arena_allocs_sorted:
  "arena_ready s \<Longrightarrow> \<forall>(sz, al) \<in> set rs. sane_size sz \<and> is_pow2 al \<Longrightarrow>
   arena_allocs s rs = Inr (res, s') \<Longrightarrow> \<forall>(b, p, n) \<in> set res. p \<noteq> NULL \<Longrightarrow>
   (\<forall>x \<in> set res. within s x) \<and> sorted_wrt arena_precedes res"
proof (induction rs arbitrary: s res)
  case Nil
  then show ?case by simp
next
  case (Cons r rs)
  obtain sz al where r: "r = (sz, al)" by (cases r)
  from Cons.prems(3) obtain p s1 res1
    where a: "arena_alloc s sz al = Inr (p, s1)"
      and rest: "arena_allocs s1 rs = Inr (res1, s')"
      and res: "res = (arena_blocks s1, p, sz) # res1"
    by (auto simp: r split: sum.splits prod.splits)
  let ?b0 = "arena_blocks s1"
  have req: "is_pow2 al" "sane_size sz" and reqs: "\<forall>(sz, al) \<in> set rs. sane_size sz \<and> is_pow2 al"
    using Cons.prems(2) by (simp_all add: r)
  have ok: "p \<noteq> NULL" and oks: "\<forall>(b, p, n) \<in> set res1. p \<noteq> NULL"
    using Cons.prems(4) unfolding res by simp_all
  from arena_alloc_step [OF Cons.prems(1) req a ok]
  have rd1: "arena_ready s1" and w0: "within s (?b0, p, sz)" and b0: "?b0 \<noteq> NULL"
    and top: "unat p + unat sz = top_head s1"
    and sub: "set (arena_backing s1) \<subseteq> set (arena_backing s)"
    by simp_all
  from Cons.IH [OF rd1 reqs rest oks]
  have w1: "\<forall>x \<in> set res1. within s1 x" and sorted: "sorted_wrt arena_precedes res1"
    by simp_all
  have ap: "\<forall>q \<in> set (arena_backing s1). block_apart ?b0 q"
    using rd1 b0 by (simp add: arena_ready_def avail_def)
  have "within s x \<and> arena_precedes (?b0, p, sz) x" if x: "x \<in> set res1" for x
  proof -
    obtain b p' n' where xe: "x = (b, p', n')" by (cases x)
    from w1 x have wx: "within s1 (b, p', n')" by (simp add: xe)
    then have sizes: "unat b + 24 \<le> unat p'" "unat p' + unat n' \<le> unat b + 1024"
      by (simp_all add: within_def)
    from w0 have sizes0: "unat ?b0 + 24 \<le> unat p" "unat p + unat sz \<le> unat ?b0 + 1024"
      by (simp_all add: within_def)
    from wx consider (same) "b = ?b0" "top_head s1 \<le> unat p'" | (other) "b \<in> set (arena_backing s1)"
      by (auto simp: within_def)
    then show ?thesis
    proof cases
      case same
      have "arena_precedes (?b0, p, sz) (b, p', n')"
        using same top by (simp add: arena_precedes_def)
      moreover have "within s (b, p', n')"
        using w0 same top sizes by (auto simp: within_def)
      ultimately show ?thesis by (simp add: xe)
    next
      case other
      with ap have far: "block_apart ?b0 b" by simp
      then have "b \<noteq> ?b0" by (auto simp: block_apart_def)
      then have "arena_precedes (?b0, p, sz) (b, p', n')"
        using far sizes sizes0 by (auto simp: arena_precedes_def block_apart_def)
      moreover have "within s (b, p', n')"
        using other sub sizes by (auto simp: within_def)
      ultimately show ?thesis by (simp add: xe)
    qed
  qed
  then show ?case
    unfolding res using w0 sorted by simp
qed

text \<open>
  Claim C8, as the code has it. For a sequence of successful calls with no reset or clear
  between them, with sizes below \<open>2 ^ 63\<close>, power-of-two alignments and a well-formed
  starting state in the lower half of the address space: in the FBA and in the Linear
  allocator every allocation precedes every later one, and in the arena every allocation
  precedes every later one of the same block and shares no byte with a later one of another
  block. So the pointers drawn from one block never decrease, they increase strictly after
  an allocation of non-zero size, and no two ranges overlap.
\<close>

theorem allocations_ordered:
  "(fba_wf f \<and> (\<forall>(sz, al) \<in> set rs. sane_size sz \<and> is_pow2 al) \<and>
    (\<forall>(p, n) \<in> set (fst (fba_allocs f rs)). p \<noteq> NULL) \<longrightarrow>
      sorted_wrt precedes (fst (fba_allocs f rs))) \<and>
   (unat (lin_head g) < 2 ^ 63 \<and> (\<forall>n \<in> set ns. sane_size n) \<and>
    (\<forall>(q, n) \<in> set (fst (allocates g ns)). q \<noteq> None) \<longrightarrow>
      sorted_wrt precedes (map (\<lambda>(q, n). (the q, n)) (fst (allocates g ns)))) \<and>
   (arena_ready s \<and> (\<forall>(sz, al) \<in> set rs. sane_size sz \<and> is_pow2 al) \<and>
    arena_allocs s rs = Inr (res, s') \<and> (\<forall>(b, p, n) \<in> set res. p \<noteq> NULL) \<longrightarrow>
      sorted_wrt arena_precedes res)"
  using fba_allocs_above [of f rs] allocates_above [of g ns] arena_allocs_sorted [of s rs res s']
  by blast

theorem allocations_ordered_witness:
  "fst (fba_allocs \<lparr>fba_buffer = 0x1000, fba_buffer_end = 0x1400, fba_head = 0x1000\<rparr>
         [(4, 4), (8, 4), (32, 1)]) = [(0x1000, 4), (0x1004, 8), (0x100C, 32)] \<and>
   sorted_wrt precedes [(0x1000, 4), (0x1004, 8), (0x100C, 32)] \<and>
   fst (allocates \<lparr>lin_head = 0\<rparr> [48, 128]) = [(Some 0, 48), (Some 48, 128)] \<and>
   sorted_wrt precedes [(0, 48), (48, 128)] \<and>
   (\<exists>s'. arena_allocs \<lparr>arena_blocks = NULL, arena_heap = Map.empty, arena_backing = [0x10000, 0x20000]\<rparr>
           [(4, 4), (16, 4), (990, 1)]
         = Inr ([(0x10000, 0x10018, 4), (0x10000, 0x1001C, 16), (0x20000, 0x20018, 990)], s')) \<and>
   sorted_wrt arena_precedes [(0x10000, 0x10018, 4), (0x10000, 0x1001C, 16), (0x20000, 0x20018, 990)]"
proof -
  let ?f = "\<lparr>fba_buffer = 0x1000, fba_buffer_end = 0x1400, fba_head = 0x1000\<rparr>"
  let ?s = "\<lparr>arena_blocks = NULL, arena_heap = Map.empty, arena_backing = [0x10000, 0x20000]\<rparr>"
  have p: "is_pow2 (4 :: size_t)" "is_pow2 (1 :: size_t)"
    unfolding is_pow2_def by (rule bexI [of _ 2], simp_all) (rule bexI [of _ 0], simp_all)
  have r: "\<forall>(sz, al) \<in> set [(4, 4), (8, 4), (32, 1 :: size_t)]. sane_size sz \<and> is_pow2 al"
    "\<forall>(sz, al) \<in> set [(4, 4), (16, 4), (990, 1 :: size_t)]. sane_size sz \<and> is_pow2 al"
    "\<forall>n \<in> set [48, 128 :: size_t]. sane_size n"
    using p by (simp_all add: sane_size_def)
  have f: "fst (fba_allocs ?f [(4, 4), (8, 4), (32, 1)]) = [(0x1000, 4), (0x1004, 8), (0x100C, 32)]"
    by (simp add: fba_alloc_opt_def ALIGN_TO_def)
  have g: "fst (allocates \<lparr>lin_head = 0\<rparr> [48, 128]) = [(Some 0, 48), (Some 48, 128)]"
    by (simp add: allocate_def BUFFER_SIZE_def)
  obtain s' where a: "arena_allocs ?s [(4, 4), (16, 4), (990, 1)]
         = Inr ([(0x10000, 0x10018, 4), (0x10000, 0x1001C, 16), (0x20000, 0x20018, 990)], s')"
    by (simp add: arena_alloc_def arena_get_block_def arena_new_block_def malloc_def
        arena_block_init_def arena_block_alloc_def ALIGN_TO_def ARENA_BLOCK_SIZE_def
        ARENA_HEADER_SIZE_def)
  have h: "fba_wf ?f" "unat (lin_head \<lparr>lin_head = 0\<rparr>) < 2 ^ 63" "arena_ready ?s"
    by (simp_all add: fba_wf_def lower_half_def arena_ready_def arena_wf_def avail_def
        block_addr_ok_def block_apart_def)
  from allocations_ordered [of ?f "[(4, 4), (8, 4), (32, 1)]" "\<lparr>lin_head = 0\<rparr>" "[48, 128]"]
    h(1,2) r(1,3) f g
  have 1: "sorted_wrt precedes [(0x1000, 4), (0x1004, 8), (0x100C, 32)]"
    and 2: "sorted_wrt precedes [(0, 48), (48, 128)]"
    by simp_all
  from allocations_ordered [where s = ?s and rs = "[(4, 4), (16, 4), (990, 1)]" and s' = s'
      and res = "[(0x10000, 0x10018, 4), (0x10000, 0x1001C, 16), (0x20000, 0x20018, 990)]"]
    h(3) r(2) a
  have 3: "sorted_wrt arena_precedes
      [(0x10000, 0x10018, 4), (0x10000, 0x1001C, 16), (0x20000, 0x20018, 990)]"
    by simp
  from f g a 1 2 3 show ?thesis by blast
qed

text \<open>
  The claim as the spec words it, with strictly increasing pointers for all sizes, zero
  included, fails: two successful requests of zero bytes return the same pointer, in the
  FBA and in the Linear allocator.
\<close>

theorem zero_size_counterexample:
  "fst (fba_allocs \<lparr>fba_buffer = 0x1000, fba_buffer_end = 0x1400, fba_head = 0x1000\<rparr>
         [(0, 1), (0, 1)]) = [(0x1000, 0), (0x1000, 0)] \<and>
   fst (allocates \<lparr>lin_head = 0\<rparr> [0, 0]) = [(Some 0, 0), (Some 0, 0)] \<and>
   \<not> (0x1000 :: addr) < 0x1000"
  by (simp add: fba_alloc_opt_def ALIGN_TO_def allocate_def BUFFER_SIZE_def)

section \<open>The invariants are established and kept\<close>

text \<open>
  The hypotheses on the state that the theorems above make are invariants: the
  initialisation of an allocator establishes them and its operations keep them.
\<close>

lemma fba_init_wf:
  assumes "buffer \<noteq> NULL" and "unat buffer + unat buffer_size \<le> 2 ^ 63"
  shows "fba_wf (fba_init buffer buffer_size)"
proof -
  have "unat (buffer + buffer_size) = unat buffer + unat buffer_size"
    using assms(2) by (simp add: unat_word_ariths)
  then show ?thesis
    using assms by (simp add: fba_wf_def fba_init_def lower_half_def word_le_nat_alt)
qed

lemma fba_reset_wf: "fba_wf f \<Longrightarrow> fba_wf (fba_reset f)"
  by (auto simp: fba_wf_def fba_reset_def)

lemma fba_aligned_nonnull:
  assumes wf: "fba_wf f" and al: "is_pow2 align"
  shows "ALIGN_TO (fba_head f) align \<noteq> NULL"
proof -
  have h: "unat (fba_head f) \<le> 2 ^ 63"
    using wf by (simp add: fba_wf_def lower_half_def word_le_nat_alt)
  have "fba_head f \<noteq> NULL"
    using wf by (auto simp: fba_wf_def)
  then have "0 < unat (fba_head f)" by (simp add: unat_gt_0)
  with ALIGN_TO_bounds [OF al h] have "0 < unat (ALIGN_TO (fba_head f) align)"
    by linarith
  then show ?thesis by (simp add: unat_gt_0)
qed

lemma fba_alloc_opt_wf:
  assumes "fba_wf f" and "sane_size sz" and "is_pow2 align"
  shows "fba_wf (snd (fba_alloc_opt f sz align))"
proof (cases "fst (fba_alloc_opt f sz align) = NULL")
  case True
  then have "snd (fba_alloc_opt f sz align) = f"
    using fba_aligned_nonnull [OF assms(1,3)]
    by (simp add: fba_alloc_opt_def Let_def split: if_splits)
  with assms(1) show ?thesis by simp
next
  case False
  then show ?thesis by (rule fba_alloc_opt_step(1) [OF assms])
qed

lemma ba_init_inv:
  assumes sz: "8 \<le> item_size" and nn: "buffer \<noteq> NULL"
    and fit: "unat buffer + unat buffer_size < 2 ^ 64"
  shows "\<exists>ba. ba_init m buffer buffer_size item_size = Some ba \<and>
           ba_inv ba (rev (map (item_addr buffer item_size) [0..<unat buffer_size div unat item_size]))"
proof -
  let ?K = "unat buffer_size div unat item_size"
  let ?xs = "rev (map (item_addr buffer item_size) [0..<?K])"
  have sz': "8 \<le> unat item_size"
    using sz by (simp add: word_le_nat_alt)
  have ks: "?K * unat item_size \<le> unat buffer_size"
    by (rule div_times_less_eq_dividend)
  with fit have fit': "unat buffer + ?K * unat item_size < 2 ^ 64"
    by linarith
  from ba_init_chain [OF sz nn fit] obtain ba
    where init: "ba_init m buffer buffer_size item_size = Some ba"
      and bf: "ba_buffer ba = buffer" "ba_buffer_end ba = buffer + buffer_size"
      and ch: "chain (ba_mem ba) (ba_blocks ba) ?xs"
    by blast
  have e: "unat (buffer + buffer_size) = unat buffer + unat buffer_size"
    using fit by (simp add: unat_word_ariths)
  have "buffer \<le> x \<and> x \<le> buffer + buffer_size" if "x \<in> set ?xs" for x
  proof -
    from that obtain j where j: "j < ?K" and x: "x = item_addr buffer item_size j"
      by auto
    have "j * unat item_size \<le> ?K * unat item_size"
      using j by (intro mult_le_mono1) simp
    then show ?thesis
      unfolding x word_le_nat_alt e item_addr_unat [OF sz' fit' j] using ks by linarith
  qed
  then have "ba_inv ba ?xs"
    using bf nn ch items_apart [OF sz' fit'] by (simp add: ba_inv_def)
  with init show ?thesis by blast
qed

lemma ba_alloc_inv:
  assumes "ba_inv ba (x # xs)"
  shows "ba_alloc ba = (x, snd (ba_alloc ba))" and "ba_inv (snd (ba_alloc ba)) xs"
proof -
  from assms have x: "ba_blocks ba = x" "x \<noteq> NULL"
    and rest: "chain (ba_mem ba) (load_ptr (ba_mem ba) x) xs"
    and ap: "\<forall>y \<in> set xs. apart x y"
    by (simp_all add: ba_inv_def)
  show "ba_alloc ba = (x, snd (ba_alloc ba))"
    using x by (simp add: ba_alloc_def Let_def)
  have "chain (memset (ba_mem ba) x 0 8) (load_ptr (ba_mem ba) x) xs"
    using rest ap by (rule chain_memset)
  then show "ba_inv (snd (ba_alloc ba)) xs"
    using assms x by (simp add: ba_inv_def ba_alloc_def Let_def)
qed

lemma ba_alloc_inv_empty:
  assumes "ba_inv ba []"
  shows "ba_alloc ba = (NULL, ba)"
  using assms by (simp add: ba_inv_def ba_alloc_def)

lemma ba_free_inv:
  assumes inv: "ba_inv ba xs" and lo: "ba_buffer ba \<le> p" and hi: "p \<le> ba_buffer_end ba"
    and ap: "\<forall>x \<in> set xs. apart p x"
  shows "ba_inv (ba_free ba p) (p # xs)"
proof -
  have fr: "ba_free ba p = ba\<lparr>ba_mem := store_ptr (ba_mem ba) p (ba_blocks ba), ba_blocks := p\<rparr>"
    using lo hi by (simp add: ba_free_def not_less)
  have "ba_buffer ba \<noteq> NULL" using inv by (simp add: ba_inv_def)
  then have "0 < unat (ba_buffer ba)" by (simp add: unat_gt_0)
  then have "0 < unat p" using lo by (simp add: word_le_nat_alt)
  then have p0: "p \<noteq> NULL" by (simp add: unat_gt_0)
  have "chain (store_ptr (ba_mem ba) p (ba_blocks ba)) (ba_blocks ba) xs"
    using inv ap by (intro chain_store) (simp_all add: ba_inv_def)
  then show ?thesis
    unfolding fr using inv p0 lo hi ap by (simp add: ba_inv_def load_store_same)
qed


text \<open>Under the invariant the scenario of claim C6 runs as the claim tells it: both
  allocations succeed, the freed item lies in the buffer and comes back, the other item
  stays allocated, and the invariant holds again.\<close>

lemma ba_lifo_inv:
  assumes inv: "ba_inv s (A # B # xs)"
  shows "\<exists>s1 s2. ba_alloc s = (A, s1) \<and> ba_alloc s1 = (B, s2) \<and> A \<noteq> B \<and>
           ba_buffer s \<le> A \<and> A \<le> ba_buffer_end s \<and>
           fst (ba_alloc (ba_free s2 A)) = A \<and>
           ba_inv (snd (ba_alloc (ba_free s2 A))) xs"
proof -
  let ?s1 = "snd (ba_alloc s)"
  let ?s2 = "snd (ba_alloc ?s1)"
  note a = ba_alloc_inv [OF inv]
  note b = ba_alloc_inv [OF a(2)]
  have rng: "ba_buffer s \<le> A" "A \<le> ba_buffer_end s"
    and ap: "apart A B" "\<forall>x \<in> set xs. apart A x"
    using inv by (simp_all add: ba_inv_def)
  have ne: "A \<noteq> B"
    using ap(1) by (auto simp: apart_def)
  have bf: "ba_buffer ?s2 = ba_buffer s" "ba_buffer_end ?s2 = ba_buffer_end s"
    by (simp_all add: ba_alloc_def Let_def)
  have "ba_inv (ba_free ?s2 A) (A # xs)"
    by (rule ba_free_inv [OF b(2)]) (simp_all add: bf rng ap)
  from ba_alloc_inv [OF this] a(1) b(1) ne rng show ?thesis
    by (metis fst_conv)
qed

text \<open>The invariant of the arena is kept by every call that returns.\<close>

lemma arena_alloc_wf:
  assumes wf: "arena_wf s" and bk: "\<forall>q \<in> set (arena_backing s). q = NULL \<or> block_addr_ok q"
    and al: "is_pow2 al" and sz: "sane_size sz"
    and res: "arena_alloc s sz al = Inr (p, s')"
  shows "arena_wf s' \<and> (\<forall>q \<in> set (arena_backing s'). q = NULL \<or> block_addr_ok q)"
proof -
  have grow: "arena_wf t' \<and> (\<forall>q \<in> set (arena_backing t'). q = NULL \<or> block_addr_ok q)"
    if t: "arena_blocks t \<noteq> NULL" "arena_wf t"
      "\<forall>q \<in> set (arena_backing t). q = NULL \<or> block_addr_ok q"
      "arena_alloc t sz al = Inr (r, t')" for t r t'
  proof -
    let ?b = "arena_blocks t"
    from t(1,2) obtain blk where hp: "arena_heap t ?b = Some blk" and bw: "block_wf ?b blk"
      by (auto simp: arena_wf_def split: option.splits)
    have gb: "arena_get_block t = (?b, t)"
      using t(1) by (simp add: arena_get_block_def)
    from attempt_top [OF refl bw hp al sz]
    show ?thesis
    proof (elim disjE exE conjE)
      fix p1 s1
      assume a: "arena_block_alloc t ?b sz al = Inr (p1, s1)" "p1 \<noteq> NULL"
        and f: "arena_wf s1" "arena_backing s1 = arena_backing t"
      have "arena_alloc t sz al = Inr (p1, s1)"
        using t(1) a gb by (simp add: arena_alloc_def)
      with t(4) have "t' = s1" by simp
      then show ?thesis using f t(3) by simp
    next
      assume fail: "arena_block_alloc t ?b sz al = Inr (NULL, t)"
      show ?thesis
      proof (cases "arena_backing t = [] \<or> (\<exists>ps. arena_backing t = NULL # ps)")
        case True
        from arena_new_block_fail [OF True]
        have "arena_alloc t sz al = Inl NullDeref"
          using t(1) fail gb by (simp add: arena_alloc_def arena_block_alloc_def)
        with t(4) show ?thesis by simp
      next
        case False
        then obtain q qs where c: "arena_backing t = q # qs" and q0: "q \<noteq> NULL"
          by (cases "arena_backing t") auto
        have qok: "block_addr_ok q" using t(3) c q0 by auto
        let ?fresh = "\<lparr>blk_next = ?b, blk_buffer_end = q + ARENA_BLOCK_SIZE,
            blk_head = q + ARENA_HEADER_SIZE\<rparr>"
        let ?u = "t\<lparr>arena_blocks := q, arena_heap := (arena_heap t)(q \<mapsto> ?fresh),
            arena_backing := qs\<rparr>"
        have nb: "arena_new_block t = (q, ?u)"
          using arena_new_block_ok [OF c q0] .
        have second: "arena_alloc t sz al = arena_block_alloc ?u q sz al"
          using t(1) fail gb nb by (simp add: arena_alloc_def)
        have fw: "block_wf q ?fresh" using fresh_block_wf [OF qok] .
        have uw: "arena_wf ?u" using fw by (simp add: arena_wf_def)
        from attempt_top [OF _ fw _ al sz, of ?u]
        have "arena_block_alloc ?u q sz al = Inr (NULL, ?u) \<or>
          (\<exists>p2 s2. arena_block_alloc ?u q sz al = Inr (p2, s2) \<and>
             arena_wf s2 \<and> arena_backing s2 = qs)"
          by auto
        then show ?thesis
          using second t(3,4) c uw by auto
      qed
    qed
  qed
  show ?thesis
  proof (cases "arena_blocks s = NULL")
    case False
    from grow [OF False wf bk res] show ?thesis .
  next
    case True
    show ?thesis
    proof (cases "arena_backing s = [] \<or> (\<exists>ps. arena_backing s = NULL # ps)")
      case fl: True
      have "arena_alloc s sz al = Inr (NULL, s\<lparr>arena_backing := tl (arena_backing s)\<rparr>)"
        using True arena_new_block_fail [OF fl] by (simp add: arena_alloc_def arena_get_block_def)
      with res have "s' = s\<lparr>arena_backing := tl (arena_backing s)\<rparr>" by simp
      then show ?thesis
        using wf bk True by (cases "arena_backing s") (auto simp: arena_wf_def)
    next
      case False
      then obtain q qs where c: "arena_backing s = q # qs" and q0: "q \<noteq> NULL"
        by (cases "arena_backing s") auto
      have qok: "block_addr_ok q" using bk c q0 by auto
      let ?fresh = "\<lparr>blk_next = arena_blocks s, blk_buffer_end = q + ARENA_BLOCK_SIZE,
          blk_head = q + ARENA_HEADER_SIZE\<rparr>"
      let ?t = "s\<lparr>arena_blocks := q, arena_heap := (arena_heap s)(q \<mapsto> ?fresh),
          arena_backing := qs\<rparr>"
      have nb: "arena_new_block s = (q, ?t)"
        using arena_new_block_ok [OF c q0] .
      have same: "arena_alloc s sz al = arena_alloc ?t sz al"
        using True q0 nb by (simp add: arena_alloc_def arena_get_block_def)
      have tw: "arena_wf ?t"
        using fresh_block_wf [OF qok] by (simp add: arena_wf_def)
      have "arena_blocks ?t \<noteq> NULL" using q0 by simp
      from grow [OF this tw _ res [unfolded same]] bk c show ?thesis by simp
    qed
  qed
qed

end
